theory Spec2Isabelle
  imports Complex_Main
begin

unbundle bit_operations_syntax

section \<open>Go values\<close>

text \<open>
  Go's \<open>int\<close>, \<open>int64\<close> and \<open>time.Duration\<close> (nanoseconds in an \<open>int64\<close>) are
  modelled as \<open>int\<close>: the counters and clock readings of this package stay far inside
  the 64-bit range. \<open>float64\<close> is modelled by exact rationals: the breaker only ever
  adds 0 and 1 to a sum, so for counts below \<open>2^52\<close> every sum, every conversion of a
  count and the numerator of the drop ratio are exact in \<open>float64\<close>, and the one rounded
  operation of \<open>accept\<close>, the final division, keeps the sign of its exact result.

  Go's \<open>/\<close> and \<open>%\<close> on integers truncate towards zero, and panic on a zero divisor.
  \<open>go_quo\<close> and \<open>go_rem\<close> are the two operators for a divisor that is not zero; every
  use below divides by a constant or checks the divisor first.
\<close>

definition go_quo :: "int \<Rightarrow> int \<Rightarrow> int" where
  "go_quo a b = (if (a < 0) = (b < 0) then \<bar>a\<bar> div \<bar>b\<bar> else - (\<bar>a\<bar> div \<bar>b\<bar>))"

definition go_rem :: "int \<Rightarrow> int \<Rightarrow> int" where
  "go_rem a b = a - b * go_quo a b"

text \<open>The conversion \<open>int64(x)\<close> of a \<open>float64\<close> drops the fraction.\<close>

definition int64_of :: "rat \<Rightarrow> int" where
  "int64_of x = (if 0 \<le> x then \<lfloor>x\<rfloor> else \<lceil>x\<rceil>)"

text \<open>The ways a call can panic.\<close>

datatype panic =
    SizePanic             \<comment> \<open>\<open>panic("size must be greater than 0")\<close>\<close>
  | DivideByZero          \<comment> \<open>integer divide by zero\<close>
  | IndexOutOfRange       \<comment> \<open>index out of range\<close>
  | NilDereference        \<comment> \<open>a method called through a nil interface value\<close>
  | LenOutOfRange         \<comment> \<open>\<open>make\<close> with a negative length\<close>

type_synonym Duration = int

section \<open>The monotonic clock (package timex)\<close>

text \<open>
  Modelled from the spec: \<open>timex.Now\<close> and \<open>timex.Since\<close> are not among the source
  files (only their test is). The spec's contract is \<open>now() -> Duration\<close>, the time
  elapsed since a fixed epoch, and \<open>since(mark) -> Duration\<close>, the time elapsed since a
  past mark. Every clock reading is a parameter of the function that takes it, and
  \<open>Since\<close> is the difference between the reading and the mark.
\<close>

definition Since :: "Duration \<Rightarrow> Duration \<Rightarrow> Duration" where
  "Since now d = now - d"

section \<open>Bucket and window (package collection)\<close>

record Bucket =
  Sum :: rat
  Count :: int

definition Bucket_add :: "Bucket \<Rightarrow> rat \<Rightarrow> Bucket" where
  "Bucket_add b v = b\<lparr>Sum := Sum b + v, Count := Count b + 1\<rparr>"

definition Bucket_reset :: "Bucket \<Rightarrow> Bucket" where
  "Bucket_reset b = b\<lparr>Sum := 0, Count := 0\<rparr>"

text \<open>\<open>new(Bucket)\<close>: the zero value.\<close>

definition new_Bucket :: Bucket where
  "new_Bucket = \<lparr>Sum = 0, Count = 0\<rparr>"

record window =
  buckets :: "Bucket list"
  wsize :: int

text \<open>
  \<open>newWindow\<close> allocates \<open>size\<close> slots and fills each with a fresh zero bucket; the
  buckets are distinct objects, so the slice of pointers is a list of values.
  \<open>make\<close> panics on a negative length, which \<open>NewRollingWindow\<close> excludes before the call.
\<close>

definition newWindow :: "int \<Rightarrow> window" where
  "newWindow sz = \<lparr>buckets = replicate (nat sz) new_Bucket, wsize = sz\<rparr>"

text \<open>
  \<open>w.buckets[offset % w.size]\<close>: the remainder panics when \<open>w.size\<close> is zero, the
  index when it is outside the slice.
\<close>

definition window_slot :: "window \<Rightarrow> int \<Rightarrow> panic + nat" where
  "window_slot w offset =
     (if wsize w = 0 then Inl DivideByZero
      else let i = go_rem offset (wsize w) in
        if 0 \<le> i \<and> i < int (length (buckets w)) then Inr (nat i)
        else Inl IndexOutOfRange)"

definition window_add :: "window \<Rightarrow> int \<Rightarrow> rat \<Rightarrow> panic + window" where
  "window_add w offset v =
     (case window_slot w offset of
        Inl p \<Rightarrow> Inl p
      | Inr i \<Rightarrow> Inr (w\<lparr>buckets := (buckets w)[i := Bucket_add (buckets w ! i) v]\<rparr>))"

definition resetBucket :: "window \<Rightarrow> int \<Rightarrow> panic + window" where
  "resetBucket w offset =
     (case window_slot w offset of
        Inl p \<Rightarrow> Inl p
      | Inr i \<Rightarrow> Inr (w\<lparr>buckets := (buckets w)[i := Bucket_reset (buckets w ! i)]\<rparr>))"

text \<open>
  \<open>reduce\<close> hands \<open>fn\<close> a pointer to each bucket of the range. The callback may write
  through the pointer and into the variables it captured, so in the model it maps the
  bucket and the captured state \<open>'a\<close> to their new values. The loop counter \<open>i\<close> is an
  argument; \<open>window_reduce\<close> starts it at 0.
\<close>

function reduce_loop ::
  "window \<Rightarrow> int \<Rightarrow> int \<Rightarrow> (Bucket \<Rightarrow> 'a \<Rightarrow> Bucket \<times> 'a) \<Rightarrow> int \<Rightarrow> 'a \<Rightarrow> panic + (window \<times> 'a)"
where
  "reduce_loop w start count fn i acc =
     (if i < count then
        (case window_slot w (start + i) of
           Inl p \<Rightarrow> Inl p
         | Inr j \<Rightarrow>
             (case fn (buckets w ! j) acc of
                (b', acc') \<Rightarrow>
                  reduce_loop (w\<lparr>buckets := (buckets w)[j := b']\<rparr>) start count fn (i + 1) acc'))
      else Inr (w, acc))"
  by pat_completeness auto
termination
  by (relation "measure (\<lambda>(w, start, count, fn, i, acc). nat (count - i))") auto

definition window_reduce ::
  "window \<Rightarrow> int \<Rightarrow> int \<Rightarrow> (Bucket \<Rightarrow> 'a \<Rightarrow> Bucket \<times> 'a) \<Rightarrow> 'a \<Rightarrow> panic + (window \<times> 'a)"
where
  "window_reduce w start count fn acc = reduce_loop w start count fn 0 acc"

section \<open>RollingWindow\<close>

text \<open>
  The lock is left out: every operation runs under it and is one atomic step here.
  The field \<open>size\<close> is \<open>rw_size\<close>.
\<close>

record RollingWindow =
  rw_size :: int
  win :: window
  interval :: Duration
  offset :: int
  ignoreCurrent :: bool
  lastTime :: Duration

type_synonym RollingWindowOption = "RollingWindow \<Rightarrow> RollingWindow"

definition IgnoreCurrentBucket :: RollingWindowOption where
  "IgnoreCurrentBucket w = w\<lparr>ignoreCurrent := True\<rparr>"

text \<open>\<open>now\<close> is the reading \<open>timex.Now()\<close> returns while the struct is built.\<close>

definition NewRollingWindow ::
  "int \<Rightarrow> Duration \<Rightarrow> RollingWindowOption list \<Rightarrow> Duration \<Rightarrow> panic + RollingWindow"
where
  "NewRollingWindow sz ival opts now =
     (if sz < 1 then Inl SizePanic
      else Inr (fold (\<lambda>opt w. opt w) opts
        \<lparr>rw_size = sz, win = newWindow sz, interval = ival,
         offset = 0, ignoreCurrent = False, lastTime = now\<rparr>))"

text \<open>\<open>now\<close> is the reading behind \<open>timex.Since\<close>.\<close>

definition span :: "RollingWindow \<Rightarrow> Duration \<Rightarrow> panic + int" where
  "span rw now =
     (if interval rw = 0 then Inl DivideByZero
      else let offset = go_quo (Since now (lastTime rw)) (interval rw) in
        if 0 \<le> offset \<and> offset < rw_size rw then Inr offset
        else Inr (rw_size rw))"

text \<open>
  The loop of \<open>updateOffset\<close> that resets the expired buckets, from counter \<open>i\<close> on;
  \<open>off\<close>, \<open>sz\<close> and \<open>sp\<close> are its \<open>offset\<close>, \<open>rw.size\<close> and \<open>span\<close>.
\<close>

function reset_loop :: "window \<Rightarrow> int \<Rightarrow> int \<Rightarrow> int \<Rightarrow> int \<Rightarrow> panic + window" where
  "reset_loop w off sz sp i =
     (if i < sp then
        (if sz = 0 then Inl DivideByZero
         else case resetBucket w (go_rem (off + i + 1) sz) of
           Inl p \<Rightarrow> Inl p
         | Inr w' \<Rightarrow> reset_loop w' off sz sp (i + 1))
      else Inr w)"
  by pat_completeness auto
termination
  by (relation "measure (\<lambda>(w, off, sz, sp, i). nat (sp - i))") auto

text \<open>
  \<open>updateOffset\<close> reads the clock twice: \<open>t_span\<close> inside \<open>span()\<close>, and \<open>now\<close> from
  \<open>timex.Now()\<close> once the buckets are reset.
\<close>

definition updateOffset :: "RollingWindow \<Rightarrow> Duration \<Rightarrow> Duration \<Rightarrow> panic + RollingWindow" where
  "updateOffset rw t_span now =
     (case span rw t_span of
        Inl p \<Rightarrow> Inl p
      | Inr sp \<Rightarrow>
          if sp \<le> 0 then Inr rw
          else (case reset_loop (win rw) (offset rw) (rw_size rw) sp 0 of
             Inl p \<Rightarrow> Inl p
           | Inr w' \<Rightarrow>
               if rw_size rw = 0 \<or> interval rw = 0 then Inl DivideByZero
               else Inr (rw\<lparr>win := w',
                            offset := go_rem (offset rw + sp) (rw_size rw),
                            lastTime := now - go_rem (now - lastTime rw) (interval rw)\<rparr>)))"

definition Add :: "RollingWindow \<Rightarrow> Duration \<Rightarrow> Duration \<Rightarrow> rat \<Rightarrow> panic + RollingWindow" where
  "Add rw t_span now v =
     (case updateOffset rw t_span now of
        Inl p \<Rightarrow> Inl p
      | Inr rw' \<Rightarrow>
          (case window_add (win rw') (offset rw') v of
             Inl p \<Rightarrow> Inl p
           | Inr w' \<Rightarrow> Inr (rw'\<lparr>win := w'\<rparr>)))"

definition Reduce ::
  "RollingWindow \<Rightarrow> Duration \<Rightarrow> (Bucket \<Rightarrow> 'a \<Rightarrow> Bucket \<times> 'a) \<Rightarrow> 'a \<Rightarrow> panic + (RollingWindow \<times> 'a)"
where
  "Reduce rw now fn acc =
     (case span rw now of
        Inl p \<Rightarrow> Inl p
      | Inr sp \<Rightarrow>
          let diff = (if sp = 0 \<and> ignoreCurrent rw then rw_size rw - 1 else rw_size rw - sp) in
          if diff > 0 then
            (if rw_size rw = 0 then Inl DivideByZero
             else case window_reduce (win rw) (go_rem (offset rw + sp + 1) (rw_size rw)) diff fn acc of
               Inl p \<Rightarrow> Inl p
             | Inr (w', acc') \<Rightarrow> Inr (rw\<lparr>win := w'\<rparr>, acc'))
          else Inr (rw, acc))"

section \<open>The adaptive breaker (googlebreaker.go)\<close>

text \<open>The constants \<open>window\<close>, \<open>buckets\<close>, \<open>k\<close> and \<open>protection\<close>.\<close>

definition const_window :: Duration where
  "const_window = 1000000000 * 10"

definition const_buckets :: int where
  "const_buckets = 40"

definition const_k :: rat where
  "const_k = 3 / 2"

definition protection :: int where
  "protection = 5"

text \<open>A Go \<open>error\<close> value is \<open>error option\<close>, with \<open>None\<close> for \<open>nil\<close>.\<close>

datatype error =
    ErrServiceUnavailable    \<comment> \<open>\<open>errors.New("circuit breaker is open")\<close>\<close>
  | Err string               \<comment> \<open>any other error, by its message\<close>

text \<open>
  Modelled from the spec: the sampler \<open>mathx.Proba\<close> is not among the source files.
  The spec's contract is \<open>trueOnProba(p) -> bool\<close>. Its state has the abstract type
  \<open>'r\<close>, and the functions that consult it take \<open>TrueOnProba\<close>, which maps a
  probability and the sampler's state to the answer and the next state, as a parameter.
  The field \<open>k\<close> is \<open>gb_k\<close>.
\<close>

record 'r googleBreaker =
  gb_k :: rat
  stat :: RollingWindow
  proba :: 'r

text \<open>\<open>r\<close> is the sampler \<open>mathx.NewProba()\<close> returns, \<open>now\<close> the reading of the clock.\<close>

definition newGoogleBreaker :: "'r \<Rightarrow> Duration \<Rightarrow> panic + 'r googleBreaker" where
  "newGoogleBreaker r now =
     (let bucketDuration = go_quo const_window const_buckets in
      case NewRollingWindow const_buckets bucketDuration [] now of
        Inl p \<Rightarrow> Inl p
      | Inr st \<Rightarrow> Inr \<lparr>gb_k = const_k, stat = st, proba = r\<rparr>)"

text \<open>
  The closure of \<open>history\<close> reads the bucket and adds to the two results it
  captured, \<open>accepts\<close> and \<open>total\<close> (here \<open>tot\<close>).
\<close>

definition history_fn :: "Bucket \<Rightarrow> int \<times> int \<Rightarrow> Bucket \<times> (int \<times> int)" where
  "history_fn b = (\<lambda>(accepts, tot). (b, (accepts + int64_of (Sum b), tot + Count b)))"

definition history :: "'r googleBreaker \<Rightarrow> Duration \<Rightarrow> panic + (int \<times> int)" where
  "history b now =
     (case Reduce (stat b) now history_fn (0, 0) of
        Inl p \<Rightarrow> Inl p
      | Inr (rw', res) \<Rightarrow> Inr res)"

text \<open>
  The drop ratio \<open>accept\<close> computes from the history \<open>(accepts, tot)\<close> and the
  field \<open>k\<close>. The quotient of rationals is 0 where the divisor is 0, that is for
  \<open>tot = - 1\<close>, which no sum of bucket counts reaches.
\<close>

definition dropRatio :: "rat \<Rightarrow> int \<Rightarrow> int \<Rightarrow> rat" where
  "dropRatio kv accepts tot =
     (let weightedAccepts = kv + of_int accepts
      in (of_int (tot - protection) - weightedAccepts) / of_int (tot + 1))"

text \<open>
  \<open>accept\<close> returns the error and the breaker, whose sampler has moved on when it
  was consulted.
\<close>

definition accept ::
  "(rat \<Rightarrow> 'r \<Rightarrow> bool \<times> 'r) \<Rightarrow> 'r googleBreaker \<Rightarrow> Duration \<Rightarrow>
   panic + (error option \<times> 'r googleBreaker)"
where
  "accept TrueOnProba b now =
     (case history b now of
        Inl p \<Rightarrow> Inl p
      | Inr (accepts, tot) \<Rightarrow>
          if dropRatio (gb_k b) accepts tot \<le> 0 then Inr (None, b)
          else (case TrueOnProba (dropRatio (gb_k b) accepts tot) (proba b) of
             (True, r') \<Rightarrow> Inr (Some ErrServiceUnavailable, b\<lparr>proba := r'\<rparr>)
           | (False, r') \<Rightarrow> Inr (None, b\<lparr>proba := r'\<rparr>)))"

text \<open>\<open>t_span\<close> and \<open>now\<close> are the two clock readings of the \<open>Add\<close>.\<close>

definition markSuccess :: "'r googleBreaker \<Rightarrow> Duration \<Rightarrow> Duration \<Rightarrow> panic + 'r googleBreaker" where
  "markSuccess b t_span now =
     (case Add (stat b) t_span now 1 of
        Inl p \<Rightarrow> Inl p
      | Inr st \<Rightarrow> Inr (b\<lparr>stat := st\<rparr>))"

definition markFailure :: "'r googleBreaker \<Rightarrow> Duration \<Rightarrow> Duration \<Rightarrow> panic + 'r googleBreaker" where
  "markFailure b t_span now =
     (case Add (stat b) t_span now 0 of
        Inl p \<Rightarrow> Inl p
      | Inr st \<Rightarrow> Inr (b\<lparr>stat := st\<rparr>))"

text \<open>
  \<open>googlePromise\<close> only holds the pointer to its breaker; its methods are
  \<open>markSuccess\<close> and \<open>markFailure\<close> on that breaker. The \<open>internalPromise\<close> that
  \<open>allow\<close> returns is \<open>googlePromise option\<close>, with \<open>None\<close> for \<open>nil\<close>.
  \<open>t_acc\<close> is the clock reading of \<open>accept\<close>.
\<close>

datatype googlePromise = GooglePromise

definition allow ::
  "(rat \<Rightarrow> 'r \<Rightarrow> bool \<times> 'r) \<Rightarrow> 'r googleBreaker \<Rightarrow> Duration \<Rightarrow> Duration \<Rightarrow> Duration \<Rightarrow>
   panic + ((googlePromise option \<times> error option) \<times> 'r googleBreaker)"
where
  "allow TrueOnProba b t_acc t_span now =
     (case accept TrueOnProba b t_acc of
        Inl p \<Rightarrow> Inl p
      | Inr (Some err, b1) \<Rightarrow>
          (case markFailure b1 t_span now of
             Inl p \<Rightarrow> Inl p
           | Inr b2 \<Rightarrow> Inr ((None, Some err), b2))
      | Inr (None, b1) \<Rightarrow> Inr ((Some GooglePromise, None), b1))"

text \<open>The two methods of \<open>googlePromise\<close>, on the breaker the promise points to.\<close>

definition googlePromise_Accept ::
  "googlePromise \<Rightarrow> 'r googleBreaker \<Rightarrow> Duration \<Rightarrow> Duration \<Rightarrow> panic option \<times> 'r googleBreaker"
where
  "googlePromise_Accept p b t_span now =
     (case markSuccess b t_span now of
        Inl e \<Rightarrow> (Some e, b)
      | Inr b' \<Rightarrow> (None, b'))"

definition googlePromise_Reject ::
  "googlePromise \<Rightarrow> 'r googleBreaker \<Rightarrow> Duration \<Rightarrow> Duration \<Rightarrow> panic option \<times> 'r googleBreaker"
where
  "googlePromise_Reject p b t_span now =
     (case markFailure b t_span now of
        Inl e \<Rightarrow> (Some e, b)
      | Inr b' \<Rightarrow> (None, b'))"

text \<open>
  The three callbacks of \<open>doReq\<close> are closures: a call can change the variables they
  captured, whose state has the abstract type \<open>'e\<close>, and it either returns a value or
  panics. So \<open>req\<close> maps the captured state to its outcome and the next state,
  \<open>fallback\<close> and \<open>acceptable\<close> do the same from the error they are given, and
  \<open>doReq\<close> returns the captured state with its result: a callback that is not invoked
  leaves no trace in it. \<open>fallback\<close> is \<open>None\<close> for a nil \<open>Fallback\<close>.

  \<open>doReq\<close> ends two ways: it returns an error value, or a panic of a callback goes on
  to the caller, on the admitted path once the deferred function has run; \<open>success\<close> is
  still false when \<open>req\<close> or \<open>acceptable\<close> panics.
\<close>

datatype 'a outcome = Returns 'a | Panics string

definition doReq ::
  "(rat \<Rightarrow> 'r \<Rightarrow> bool \<times> 'r) \<Rightarrow> 'r googleBreaker \<Rightarrow>
   ('e \<Rightarrow> error option outcome \<times> 'e) \<Rightarrow>
   (error option \<Rightarrow> 'e \<Rightarrow> error option outcome \<times> 'e) option \<Rightarrow>
   (error option \<Rightarrow> 'e \<Rightarrow> bool outcome \<times> 'e) \<Rightarrow> 'e \<Rightarrow>
   Duration \<Rightarrow> Duration \<Rightarrow> Duration \<Rightarrow>
   panic + (error option outcome \<times> 'r googleBreaker \<times> 'e)"
where
  "doReq TrueOnProba b req fallback acceptable env t_acc t_span now =
     (case accept TrueOnProba b t_acc of
        Inl p \<Rightarrow> Inl p
      | Inr (Some err, b1) \<Rightarrow>
          (case markFailure b1 t_span now of
             Inl p \<Rightarrow> Inl p
           | Inr b2 \<Rightarrow>
               (case fallback of
                  Some f \<Rightarrow> (case f (Some err) env of (res, env1) \<Rightarrow> Inr (res, b2, env1))
                | None \<Rightarrow> Inr (Returns (Some err), b2, env)))
      | Inr (None, b1) \<Rightarrow>
          (case req env of
             (Returns err, env1) \<Rightarrow>
               (case acceptable err env1 of
                  (Returns ok, env2) \<Rightarrow>
                    (case (if ok then markSuccess b1 t_span now
                           else markFailure b1 t_span now) of
                       Inl p \<Rightarrow> Inl p
                     | Inr b2 \<Rightarrow> Inr (Returns err, b2, env2))
                | (Panics v, env2) \<Rightarrow>
                    (case markFailure b1 t_span now of
                       Inl p \<Rightarrow> Inl p
                     | Inr b2 \<Rightarrow> Inr (Panics v, b2, env2)))
           | (Panics v, env1) \<Rightarrow>
               (case markFailure b1 t_span now of
                  Inl p \<Rightarrow> Inl p
                | Inr b2 \<Rightarrow> Inr (Panics v, b2, env1))))"

section \<open>The error window and the logged throttle (breaker.go)\<close>

definition defaultAcceptable :: "error option \<Rightarrow> bool" where
  "defaultAcceptable err \<longleftrightarrow> err = None"

definition numHistoryReasons :: int where
  "numHistoryReasons = 5"

text \<open>
  Modelled from the spec: \<open>mathx.MinInt\<close> is not among the source files; it is the
  smaller of two ints, which gives the spec's invariant \<open>count <= capacity\<close>.
\<close>

definition MinInt :: "int \<Rightarrow> int \<Rightarrow> int" where
  "MinInt a b = (if a < b then a else b)"

record errorWindow =
  reasons :: "string list"
  index :: int
  count :: int

text \<open>\<open>new(errorWindow)\<close>: five empty strings, both counters zero.\<close>

definition new_errorWindow :: errorWindow where
  "new_errorWindow = \<lparr>reasons = replicate (nat numHistoryReasons) [], index = 0, count = 0\<rparr>"

text \<open>
  \<open>ts\<close> is the string \<open>time.Now().Format(timeFormat)\<close> gives at the call. The array
  has \<open>numHistoryReasons\<close> slots, and an index outside them panics.
\<close>

definition errorWindow_add :: "errorWindow \<Rightarrow> string \<Rightarrow> string \<Rightarrow> panic + errorWindow" where
  "errorWindow_add ew ts reason =
     (if 0 \<le> index ew \<and> index ew < numHistoryReasons then
        Inr (ew\<lparr>reasons := (reasons ew)[nat (index ew) := ts @ '' '' @ reason],
                index := go_rem (index ew + 1) numHistoryReasons,
                count := MinInt (count ew + 1) numHistoryReasons\<rparr>)
      else Inl IndexOutOfRange)"

text \<open>The loop of \<open>String\<close>, from counter \<open>i\<close> down, with the strings appended so far.\<close>

function String_loop :: "errorWindow \<Rightarrow> int \<Rightarrow> string list \<Rightarrow> panic + string list" where
  "String_loop ew i acc =
     (if i \<ge> index ew - count ew then
        (let j = go_rem (i + numHistoryReasons) numHistoryReasons in
         if 0 \<le> j \<and> j < numHistoryReasons then String_loop ew (i - 1) (acc @ [reasons ew ! nat j])
         else Inl IndexOutOfRange)
      else Inr acc)"
  by pat_completeness auto
termination
  by (relation "measure (\<lambda>(ew, i, acc). nat (i - (index ew - count ew) + 1))") auto

text \<open>\<open>strings.Join\<close>: the elements with the separator between them.\<close>

fun Join :: "string list \<Rightarrow> string \<Rightarrow> string" where
  "Join [] sep = []"
| "Join [x] sep = x"
| "Join (x # y # ys) sep = x @ sep @ Join (y # ys) sep"

definition errorWindow_String :: "errorWindow \<Rightarrow> panic + string" where
  "errorWindow_String ew =
     (case String_loop ew (index ew - 1) [] of
        Inl p \<Rightarrow> Inl p
      | Inr rs \<Rightarrow> Inr (Join rs [CHR 0x0A]))"

text \<open>
  \<open>internalThrottle\<close> and \<open>internalPromise\<close> are interfaces, and no type of the source
  files satisfies \<open>internalThrottle\<close>: its \<open>doReq\<close> takes a \<open>func(err error) error\<close>
  where the \<open>doReq\<close> of \<open>googleBreaker\<close> takes the named type \<open>Fallback\<close>. So what
  stands behind the interface is a parameter: its state has the abstract type \<open>'t\<close>,
  and \<open>loggedThrottle_allow\<close> takes its method \<open>allow\<close> as \<open>it_allow\<close>, which maps the
  state to the promise, the error and the next state. The promise it returns has the
  abstract type \<open>'p\<close> (\<open>None\<close> for nil), and the methods of \<open>PromiseWithReason\<close> take
  the methods of that promise, which work on the state behind the interface.

  The field \<open>name\<close> is \<open>lt_name\<close>. The pointer \<open>errWin\<close> is shared with every
  \<open>PromiseWithReason\<close> the throttle hands out, so the methods of the promise work on
  the throttle's state.
\<close>

record 't loggedThrottle =
  lt_name :: string
  internalThrottle :: 't
  errWin :: errorWindow

definition newLoggedThrottle :: "string \<Rightarrow> 't \<Rightarrow> 't loggedThrottle" where
  "newLoggedThrottle nm t = \<lparr>lt_name = nm, internalThrottle = t, errWin = new_errorWindow\<rparr>"

text \<open>
  Modelled from the spec: \<open>stat.Report\<close>, \<open>proc.ProcessName\<close> and \<open>proc.Pid\<close> are not
  among the source files. The report sink accepts a formatted string; \<open>logError\<close>
  returns the messages it sends there. \<open>pname\<close> is the process name and \<open>pid\<close> the
  process id in decimal. \<open>errors.Is\<close> holds for the sentinel itself.
\<close>

definition logError ::
  "'t loggedThrottle \<Rightarrow> string \<Rightarrow> string \<Rightarrow> error option \<Rightarrow> panic + (error option \<times> string list)"
where
  "logError lt pname pid err =
     (if err = Some ErrServiceUnavailable then
        (case errorWindow_String (errWin lt) of
           Inl p \<Rightarrow> Inl p
         | Inr s \<Rightarrow>
             Inr (err, [''proc('' @ pname @ ''/'' @ pid @ ''), callee: '' @ lt_name lt @
                        '', breaker is open and requests dropped'' @ [CHR 0x0A] @
                        ''last errors:'' @ [CHR 0x0A] @ s]))
      else Inr (err, []))"

record 'p PromiseWithReason =
  promise :: "'p option"

definition loggedThrottle_allow ::
  "('t \<Rightarrow> panic + (('p option \<times> error option) \<times> 't)) \<Rightarrow> 't loggedThrottle \<Rightarrow> string \<Rightarrow> string \<Rightarrow>
   panic + (('p PromiseWithReason \<times> error option) \<times> 't loggedThrottle \<times> string list)"
where
  "loggedThrottle_allow it_allow lt pname pid =
     (case it_allow (internalThrottle lt) of
        Inl p \<Rightarrow> Inl p
      | Inr ((pr, err), t') \<Rightarrow>
          (case logError (lt\<lparr>internalThrottle := t'\<rparr>) pname pid err of
             Inl p \<Rightarrow> Inl p
           | Inr (err', msgs) \<Rightarrow>
               Inr ((\<lparr>promise = pr\<rparr>, err'), lt\<lparr>internalThrottle := t'\<rparr>, msgs)))"

text \<open>
  The two methods of \<open>PromiseWithReason\<close> return the panic, if any, and the state
  of the throttle when the call ends. A method called on the nil \<open>internalPromise\<close>
  panics. \<open>p_Accept\<close> and \<open>p_Reject\<close> are the methods of the promise inside.
\<close>

definition PromiseWithReason_Accept ::
  "('p \<Rightarrow> 't \<Rightarrow> panic option \<times> 't) \<Rightarrow> 'p PromiseWithReason \<Rightarrow> 't loggedThrottle \<Rightarrow>
   panic option \<times> 't loggedThrottle"
where
  "PromiseWithReason_Accept p_Accept p lt =
     (case promise p of
        None \<Rightarrow> (Some NilDereference, lt)
      | Some ip \<Rightarrow>
          (case p_Accept ip (internalThrottle lt) of
             (e, t') \<Rightarrow> (e, lt\<lparr>internalThrottle := t'\<rparr>)))"

definition PromiseWithReason_Reject ::
  "('p \<Rightarrow> 't \<Rightarrow> panic option \<times> 't) \<Rightarrow> 'p PromiseWithReason \<Rightarrow> 't loggedThrottle \<Rightarrow>
   string \<Rightarrow> string \<Rightarrow> panic option \<times> 't loggedThrottle"
where
  "PromiseWithReason_Reject p_Reject p lt ts reason =
     (case errorWindow_add (errWin lt) ts reason of
        Inl e \<Rightarrow> (Some e, lt)
      | Inr ew' \<Rightarrow>
          (case promise p of
             None \<Rightarrow> (Some NilDereference, lt\<lparr>errWin := ew'\<rparr>)
           | Some ip \<Rightarrow>
               (case p_Reject ip (internalThrottle lt) of
                  (e, t') \<Rightarrow> (e, lt\<lparr>errWin := ew', internalThrottle := t'\<rparr>))))"

section \<open>Random names (package stringx)\<close>

definition letterBytes :: string where
  "letterBytes = ''abcdefghijklmnopqrstuvwxyzABCDEFGHIJKLMNOPQRSTUVWXYZ0123456789''"

definition letterIdxBits :: nat where
  "letterIdxBits = 6"

definition defaultRandLen :: int where
  "defaultRandLen = 8"

definition letterIdxMask :: int where
  "letterIdxMask = push_bit letterIdxBits 1 - 1"

definition letterIdxMax :: int where
  "letterIdxMax = go_quo 63 (int letterIdxBits)"

text \<open>
  The source \<open>src\<close> is a locked \<open>rand.Source\<close> of Go's library. Its state has the
  abstract type \<open>'s\<close>, and \<open>Int63\<close>, which maps the state to a number and the next
  state, is a parameter.

  The loop of \<open>Randn\<close>, with its variables \<open>b\<close>, \<open>i\<close>, \<open>cache\<close> and \<open>remain\<close>. It ends
  when \<open>i\<close> falls below 0, which needs enough six-bit groups below 62 from the source;
  \<open>None\<close> is a loop that never ends.
\<close>

partial_function (option) Randn_loop ::
  "('s \<Rightarrow> int \<times> 's) \<Rightarrow> string \<Rightarrow> int \<Rightarrow> int \<Rightarrow> int \<Rightarrow> 's \<Rightarrow> (string \<times> 's) option"
where
  "Randn_loop Int63 b i cache remain src =
     (if i \<ge> 0 then
        (case (if remain = 0 then (case Int63 src of (c, s') \<Rightarrow> (c, letterIdxMax, s'))
               else (cache, remain, src)) of
           (cache1, remain1, src1) \<Rightarrow>
             if cache1 AND letterIdxMask < int (length letterBytes)
             then Randn_loop Int63 (b[nat i := letterBytes ! nat (cache1 AND letterIdxMask)]) (i - 1)
                    (drop_bit letterIdxBits cache1) (remain1 - 1) src1
             else Randn_loop Int63 b i (drop_bit letterIdxBits cache1) (remain1 - 1) src1)
      else Some (b, src))"

text \<open>
  \<open>Randn\<close> draws once for \<open>cache\<close> and starts \<open>remain\<close> at \<open>letterIdxMask\<close>, as the
  source has it.
\<close>

definition Randn :: "('s \<Rightarrow> int \<times> 's) \<Rightarrow> int \<Rightarrow> 's \<Rightarrow> (panic + string \<times> 's) option" where
  "Randn Int63 n src =
     (if n < 0 then Some (Inl LenOutOfRange)
      else case Int63 src of
        (cache, src1) \<Rightarrow>
          map_option Inr
            (Randn_loop Int63 (replicate (nat n) (CHR 0x00)) (n - 1) cache letterIdxMask src1))"

definition Rand :: "('s \<Rightarrow> int \<times> 's) \<Rightarrow> 's \<Rightarrow> (panic + string \<times> 's) option" where
  "Rand Int63 src = Randn Int63 defaultRandLen src"

section \<open>NewBreaker (breaker.go)\<close>

text \<open>
  The field \<open>name\<close> is \<open>cb_name\<close>. The embedded interface \<open>throttle\<close> holds a
  \<open>loggedThrottle\<close> or is nil (\<open>None\<close>). A \<open>Breaker\<close> value is
  \<open>circuitBreaker option\<close>, with \<open>None\<close> for the nil interface.
\<close>

record 'r circuitBreaker =
  cb_name :: string
  throttle :: "'r loggedThrottle option"

text \<open>
  \<open>NewBreaker\<close> applies the options to a zero \<open>circuitBreaker\<close>, gives it a random name
  when it has none, and ends with \<open>return nil\<close>.
\<close>

definition NewBreaker ::
  "('s \<Rightarrow> int \<times> 's) \<Rightarrow> ('r circuitBreaker \<Rightarrow> 'r circuitBreaker) list \<Rightarrow> 's \<Rightarrow>
   (panic + 'r circuitBreaker option \<times> 's) option"
where
  "NewBreaker Int63 opts src =
     (let b = fold (\<lambda>opt b. opt b) opts \<lparr>cb_name = [], throttle = None\<rparr> in
      if length (cb_name b) = 0 then
        (case Rand Int63 src of
           None \<Rightarrow> None
         | Some (Inl p) \<Rightarrow> Some (Inl p)
         | Some (Inr (s, src')) \<Rightarrow>
             (let b' = b\<lparr>cb_name := s\<rparr> in Some (Inr (None, src'))))
      else Some (Inr (None, src)))"

text \<open>\<open>Name\<close> through a \<open>Breaker\<close> value; through the nil interface it panics.\<close>

definition Name :: "'r circuitBreaker option \<Rightarrow> panic + string" where
  "Name br = (case br of None \<Rightarrow> Inl NilDereference | Some cb \<Rightarrow> Inr (cb_name cb))"

section \<open>The error window as a log\<close>

text \<open>The array has its five slots, and both counters are in range.\<close>

definition ew_inv :: "errorWindow \<Rightarrow> bool" where
  "ew_inv ew \<longleftrightarrow>
     length (reasons ew) = 5 \<and> 0 \<le> index ew \<and> index ew < 5 \<and> 0 \<le> count ew \<and> count ew \<le> 5"

text \<open>What \<open>add\<close> stores for a timestamp and a reason: \<open>fmt.Sprintf("%s %s", ts, reason)\<close>.\<close>

definition entry :: "string \<times> string \<Rightarrow> string" where
  "entry x = fst x @ '' '' @ snd x"

text \<open>A sequence of \<open>add\<close> calls, each with its timestamp and its reason.\<close>

fun add_all :: "errorWindow \<Rightarrow> (string \<times> string) list \<Rightarrow> panic + errorWindow" where
  "add_all ew [] = Inr ew"
| "add_all ew (x # xs) =
     (case errorWindow_add ew (fst x) (snd x) of
        Inl p \<Rightarrow> Inl p
      | Inr ew' \<Rightarrow> add_all ew' xs)"

text \<open>Seven reasons, as an example.\<close>

definition example_reasons :: "(string \<times> string) list" where
  "example_reasons =
     [(''10:00:01'', ''a''), (''10:00:02'', ''b''), (''10:00:03'', ''c''), (''10:00:04'', ''d''),
      (''10:00:05'', ''e''), (''10:00:06'', ''f''), (''10:00:07'', ''g'')]"

text \<open>
  The stored reasons, the most recent first: \<open>count\<close> slots, backwards from the one
  before \<open>index\<close>.
\<close>

definition stored :: "errorWindow \<Rightarrow> string list" where
  "stored ew = map (\<lambda>i. reasons ew ! nat ((index ew - 1 - i) mod 5)) [0..count ew - 1]"

section \<open>Well-formed windows\<close>

definition wf_window :: "RollingWindow \<Rightarrow> bool" where
  "wf_window rw \<longleftrightarrow>
     1 \<le> rw_size rw \<and> wsize (win rw) = rw_size rw \<and>
     int (length (buckets (win rw))) = rw_size rw \<and>
     0 \<le> offset rw \<and> offset rw < rw_size rw"

section \<open>The spec's words\<close>

text \<open>
  The spec's span: the whole intervals elapsed since \<open>lastTime\<close>, at most the size.
\<close>

definition spec_span :: "RollingWindow \<Rightarrow> Duration \<Rightarrow> int" where
  "spec_span rw now = min ((now - lastTime rw) div interval rw) (rw_size rw)"

text \<open>
  The spec's range of \<open>Reduce\<close>: \<open>n\<close> consecutive slots modulo the size, from slot
  \<open>(offset + span + 1) mod size\<close> on.
\<close>

definition spec_range :: "RollingWindow \<Rightarrow> int \<Rightarrow> int \<Rightarrow> nat list" where
  "spec_range rw sp n =
     map (\<lambda>i. nat (((offset rw + sp + 1) mod rw_size rw + i) mod rw_size rw)) [0..n - 1]"

text \<open>
  The spec's \<open>Add\<close> in one step. The slots that expire are
  \<open>(offset + i + 1) mod size\<close> for \<open>i\<close> in \<open>0..span-1\<close>. The window after one sample
  \<open>v\<close>: the current slot moves on by the span; at the current slot the sample joins the
  bucket when nothing expired and starts the bucket anew otherwise; the other expired
  slots are zero and the rest are as they were; \<open>lastTime\<close> is realigned unless
  nothing expired.
\<close>

definition reset_slots :: "RollingWindow \<Rightarrow> int \<Rightarrow> nat list" where
  "reset_slots rw sp = map (\<lambda>i. nat ((offset rw + i + 1) mod rw_size rw)) [0..sp - 1]"

definition after_sample :: "RollingWindow \<Rightarrow> Duration \<Rightarrow> Duration \<Rightarrow> rat \<Rightarrow> RollingWindow" where
  "after_sample rw t_span now v =
     (let sp = spec_span rw t_span;
          cur = nat ((offset rw + sp) mod rw_size rw);
          old = buckets (win rw)
      in rw\<lparr>win := (win rw)\<lparr>buckets :=
               map (\<lambda>p. if p = cur then
                           (if sp = 0
                            then \<lparr>Sum = Sum (old ! p) + v, Count = Count (old ! p) + 1\<rparr>
                            else \<lparr>Sum = v, Count = 1\<rparr>)
                         else if p \<in> set (reset_slots rw sp) then \<lparr>Sum = 0, Count = 0\<rparr>
                         else old ! p)
                   [0..<length old]\<rparr>,
            offset := (offset rw + sp) mod rw_size rw,
            lastTime := (if sp = 0 then lastTime rw
                         else now - (now - lastTime rw) mod interval rw)\<rparr>)"

text \<open>One invocation of the callback on slot \<open>j\<close> of the buckets.\<close>

definition visit ::
  "(Bucket \<Rightarrow> 'a \<Rightarrow> Bucket \<times> 'a) \<Rightarrow> nat \<Rightarrow> Bucket list \<times> 'a \<Rightarrow> Bucket list \<times> 'a"
where
  "visit fn j = (\<lambda>(bs, acc). case fn (bs ! j) acc of (b', acc') \<Rightarrow> (bs[j := b'], acc'))"

section \<open>Example states\<close>

text \<open>A window of four buckets, a quarter of a microsecond each.\<close>

definition example_window :: RollingWindow where
  "example_window =
     \<lparr>rw_size = 4,
      win = \<lparr>buckets = [\<lparr>Sum = 2, Count = 3\<rparr>, \<lparr>Sum = 1, Count = 1\<rparr>,
                       \<lparr>Sum = 0, Count = 2\<rparr>, \<lparr>Sum = 4, Count = 4\<rparr>], wsize = 4\<rparr>,
      interval = 250, offset = 1, ignoreCurrent = False, lastTime = 1000\<rparr>"

text \<open>A window of the same shape whose slots 3, 0 and 1 hold successes only.\<close>

definition example_successes :: RollingWindow where
  "example_successes =
     \<lparr>rw_size = 4,
      win = \<lparr>buckets = [\<lparr>Sum = 3, Count = 3\<rparr>, \<lparr>Sum = 1, Count = 1\<rparr>,
                       \<lparr>Sum = 0, Count = 2\<rparr>, \<lparr>Sum = 4, Count = 4\<rparr>], wsize = 4\<rparr>,
      interval = 250, offset = 1, ignoreCurrent = False, lastTime = 1000\<rparr>"

text \<open>
  A window whose slots 0 and 1 hold 150 attempts and no success, and the breakers
  around the first and the last of the three windows.
\<close>

definition example_failures :: RollingWindow where
  "example_failures =
     \<lparr>rw_size = 4,
      win = \<lparr>buckets = [\<lparr>Sum = 0, Count = 100\<rparr>, \<lparr>Sum = 0, Count = 50\<rparr>,
                       \<lparr>Sum = 1, Count = 2\<rparr>, \<lparr>Sum = 0, Count = 0\<rparr>], wsize = 4\<rparr>,
      interval = 250, offset = 1, ignoreCurrent = False, lastTime = 1000\<rparr>"

definition example_breaker :: "unit googleBreaker" where
  "example_breaker = \<lparr>gb_k = const_k, stat = example_window, proba = ()\<rparr>"

definition example_tripped :: "unit googleBreaker" where
  "example_tripped = \<lparr>gb_k = const_k, stat = example_failures, proba = ()\<rparr>"

text \<open>
  The tripped breaker after one failure sample at the readings 1600 and 1610, and a
  logged throttle named \<open>svc\<close> around it with an empty error window.
\<close>

definition example_tripped_after :: "unit googleBreaker" where
  "example_tripped_after =
     example_tripped\<lparr>stat :=
        example_failures\<lparr>win := \<lparr>buckets = [\<lparr>Sum = 0, Count = 100\<rparr>, \<lparr>Sum = 0, Count = 50\<rparr>,
                                              \<lparr>Sum = 0, Count = 0\<rparr>, \<lparr>Sum = 0, Count = 1\<rparr>], wsize = 4\<rparr>,
                         offset := 3, lastTime := 1500\<rparr>\<rparr>"

definition example_rejected :: "unit googleBreaker loggedThrottle" where
  "example_rejected =
     \<lparr>lt_name = ''svc'', internalThrottle = example_tripped_after, errWin = new_errorWindow\<rparr>"

section \<open>Invariants of the breaker\<close>

text \<open>
  A bucket of the breaker holds the successes among its attempts: \<open>markSuccess\<close> adds 1
  and \<open>markFailure\<close> adds 0 to the sum, and both count one attempt.
\<close>

definition bucket_ok :: "Bucket \<Rightarrow> bool" where
  "bucket_ok bk \<longleftrightarrow> 0 \<le> Sum bk \<and> Sum bk \<le> of_int (Count bk)"

definition breaker_inv :: "'r googleBreaker \<Rightarrow> bool" where
  "breaker_inv b \<longleftrightarrow>
     wf_window (stat b) \<and> 0 < interval (stat b) \<and> gb_k b = const_k \<and>
     (\<forall>bk\<in>set (buckets (win (stat b))). bucket_ok bk)"

text \<open>The recursive equations are unfolded by hand, one round at a time.\<close>

declare reduce_loop.simps [simp del] reset_loop.simps [simp del] String_loop.simps [simp del]

section \<open>Arithmetic of the Go operators\<close>

lemma go_quo_nonneg: "0 \<le> a \<Longrightarrow> 0 < b \<Longrightarrow> go_quo a b = a div b"
  by (simp add: go_quo_def)

lemma go_rem_nonneg: "0 \<le> a \<Longrightarrow> 0 < b \<Longrightarrow> go_rem a b = a mod b"
  by (simp add: go_rem_def go_quo_nonneg minus_mult_div_eq_mod)

section \<open>Construction\<close>

lemma fold_IgnoreCurrentBucket:
  "\<forall>opt\<in>set opts. opt = IgnoreCurrentBucket \<Longrightarrow>
   fold (\<lambda>opt w. opt w) opts rw = rw\<lparr>ignoreCurrent := (opts \<noteq> [] \<or> ignoreCurrent rw)\<rparr>"
  by (induction opts arbitrary: rw) (auto simp: IgnoreCurrentBucket_def)

lemma NewRollingWindow_wf:
  assumes "NewRollingWindow sz ival opts now = Inr rw" "\<forall>opt\<in>set opts. opt = IgnoreCurrentBucket"
  shows "wf_window rw \<and> interval rw = ival \<and> lastTime rw = now"
  using assms
  by (auto simp: NewRollingWindow_def fold_IgnoreCurrentBucket newWindow_def wf_window_def
           split: if_splits)

text \<open>
  C9. \<open>NewRollingWindow\<close> with \<open>size < 1\<close> panics and returns no window at all, so it never
  clamps the size to 1. For every \<open>size \<ge> 1\<close>, with no option or with the package's
  option \<open>IgnoreCurrentBucket\<close>, it returns a window whose size is \<open>size\<close>, with exactly
  \<open>size\<close> buckets, each zero, with \<open>offset\<close> 0 and \<open>lastTime\<close> the clock reading taken
  during construction.
\<close>

theorem NewRollingWindow_size:
  assumes "\<forall>opt\<in>set opts. opt = IgnoreCurrentBucket"
  shows "(sz < 1 \<longrightarrow> NewRollingWindow sz ival opts now = Inl SizePanic) \<and>
         (1 \<le> sz \<longrightarrow>
            (\<exists>rw. NewRollingWindow sz ival opts now = Inr rw \<and>
               rw_size rw = sz \<and> wsize (win rw) = sz \<and>
               int (length (buckets (win rw))) = sz \<and>
               (\<forall>b\<in>set (buckets (win rw)). Sum b = 0 \<and> Count b = 0) \<and>
               interval rw = ival \<and> offset rw = 0 \<and> lastTime rw = now \<and>
               ignoreCurrent rw = (opts \<noteq> [])))"
  using assms
  by (simp add: NewRollingWindow_def fold_IgnoreCurrentBucket newWindow_def new_Bucket_def)

theorem NewRollingWindow_size_witness:
  "NewRollingWindow 0 250000000 [] 17 = Inl SizePanic \<and>
   NewRollingWindow (- 3) 250000000 [IgnoreCurrentBucket] 17 = Inl SizePanic \<and>
   (\<exists>rw. NewRollingWindow 3 250000000 [IgnoreCurrentBucket] 17 = Inr rw \<and>
      rw_size rw = 3 \<and> buckets (win rw) = [new_Bucket, new_Bucket, new_Bucket] \<and>
      lastTime rw = 17 \<and> ignoreCurrent rw)"
proof -
  have ic: "\<forall>opt\<in>set [IgnoreCurrentBucket]. opt = IgnoreCurrentBucket" by simp
  have none: "\<forall>opt\<in>set ([] :: RollingWindowOption list). opt = IgnoreCurrentBucket" by simp
  show ?thesis
    using NewRollingWindow_size [OF none, of 0 250000000 17]
      NewRollingWindow_size [OF ic, of "- 3" 250000000 17]
      NewRollingWindow_size [OF ic, of 3 250000000 17]
    by (auto simp: NewRollingWindow_def newWindow_def IgnoreCurrentBucket_def numeral_3_eq_3)
qed

section \<open>Iteration over a well-formed window\<close>

lemma Bucket_reset_new: "Bucket_reset b = new_Bucket"
  by (cases b) (simp add: Bucket_reset_def new_Bucket_def)

lemma window_slot_wf:
  assumes "1 \<le> wsize w" "int (length (buckets w)) = wsize w" "0 \<le> off"
  shows "window_slot w off = Inr (nat (off mod wsize w))"
  using assms by (simp add: window_slot_def go_rem_nonneg Let_def)

lemma length_visit: "length (fst (visit fn j s)) = length (fst s)"
  by (cases s) (simp add: visit_def split: prod.splits)

lemma length_fold_visit: "length (fst (fold (visit fn) js s)) = length (fst s)"
  by (induction js arbitrary: s) (simp_all add: length_visit)

lemma reduce_loop_wf:
  assumes "1 \<le> wsize w" "int (length (buckets w)) = wsize w" "0 \<le> start" "0 \<le> i"
  shows "reduce_loop w start n fn i acc =
           Inr (w\<lparr>buckets := fst (fold (visit fn) (map (\<lambda>t. nat ((start + t) mod wsize w)) [i..n - 1]) (buckets w, acc))\<rparr>,
                snd (fold (visit fn) (map (\<lambda>t. nat ((start + t) mod wsize w)) [i..n - 1]) (buckets w, acc)))"
  using assms
proof (induction w start n fn i acc rule: reduce_loop.induct)
  case (1 w start n fn i acc)
  show ?case
  proof (cases "i < n")
    case False
    then show ?thesis by (subst reduce_loop.simps) (simp)
  next
    case True
    let ?j = "nat ((start + i) mod wsize w)"
    obtain b' acc' where fn: "fn (buckets w ! ?j) acc = (b', acc')" by (cases "fn (buckets w ! ?j) acc")
    have slot: "window_slot w (start + i) = Inr ?j"
      using 1(2-5) by (simp add: window_slot_wf)
    let ?w1 = "w\<lparr>buckets := (buckets w)[?j := b']\<rparr>"
    have IH: "reduce_loop ?w1 start n fn (i + 1) acc' =
           Inr (?w1\<lparr>buckets := fst (fold (visit fn) (map (\<lambda>t. nat ((start + t) mod wsize ?w1)) [i + 1..n - 1]) (buckets ?w1, acc'))\<rparr>,
                snd (fold (visit fn) (map (\<lambda>t. nat ((start + t) mod wsize ?w1)) [i + 1..n - 1]) (buckets ?w1, acc')))"
      using 1(2-5) by (intro "1.IH"[OF True slot fn[symmetric]]) simp_all
    have up: "[i..n - 1] = i # [i + 1..n - 1]" using True by (simp add: upto_rec1)
    show ?thesis
      by (subst reduce_loop.simps) (simp add: True slot fn IH up visit_def)
  qed
qed


lemma resetBucket_wf:
  assumes "1 \<le> wsize w" "int (length (buckets w)) = wsize w" "0 \<le> off"
  shows "resetBucket w off = Inr (w\<lparr>buckets := (buckets w)[nat (off mod wsize w) := new_Bucket]\<rparr>)"
  using assms by (simp add: resetBucket_def window_slot_wf Bucket_reset_new)

lemma ex_from_step:
  fixes i sp :: int
  assumes "i < sp"
  shows "(\<exists>j. i \<le> j \<and> j < sp \<and> f j = p) \<longleftrightarrow> (f i = p \<or> (\<exists>j. i + 1 \<le> j \<and> j < sp \<and> f j = p))"
proof
  assume "\<exists>j. i \<le> j \<and> j < sp \<and> f j = p"
  then obtain j where j: "i \<le> j" "j < sp" "f j = p" by blast
  show "f i = p \<or> (\<exists>j. i + 1 \<le> j \<and> j < sp \<and> f j = p)"
  proof (cases "j = i")
    case True
    with j show ?thesis by simp
  next
    case False
    with j have "i + 1 \<le> j" by simp
    with j show ?thesis by blast
  qed
next
  assume "f i = p \<or> (\<exists>j. i + 1 \<le> j \<and> j < sp \<and> f j = p)"
  then show "\<exists>j. i \<le> j \<and> j < sp \<and> f j = p"
  proof
    assume "f i = p"
    with assms show ?thesis by (intro exI[of _ i]) simp
  next
    assume "\<exists>j. i + 1 \<le> j \<and> j < sp \<and> f j = p"
    then obtain j where j: "i + 1 \<le> j" "j < sp" "f j = p" by blast
    then have "i \<le> j" by simp
    with j show ?thesis by blast
  qed
qed

lemma reset_loop_wf:
  assumes "1 \<le> sz" "wsize w = sz" "int (length (buckets w)) = sz" "0 \<le> off" "0 \<le> i"
  shows "\<exists>w'. reset_loop w off sz sp i = Inr w' \<and> wsize w' = sz \<and>
           length (buckets w') = length (buckets w) \<and>
           (\<forall>p < length (buckets w). buckets w' ! p =
              (if \<exists>j. i \<le> j \<and> j < sp \<and> nat ((off + j + 1) mod sz) = p then new_Bucket
               else buckets w ! p))"
  using assms
proof (induction w off sz sp i rule: reset_loop.induct)
  case (1 w off sz sp i)
  show ?case
  proof (cases "i < sp")
    case False
    with "1.prems" show ?thesis by (subst reset_loop.simps) auto
  next
    case True
    let ?q = "nat ((off + i + 1) mod sz)"
    let ?w1 = "w\<lparr>buckets := (buckets w)[?q := new_Bucket]\<rparr>"
    have nz: "sz \<noteq> 0" using "1.prems" by simp
    have rb: "resetBucket w (go_rem (off + i + 1) sz) = Inr ?w1"
      using "1.prems" by (simp add: resetBucket_wf go_rem_nonneg)
    from "1.IH"[OF True nz rb] "1.prems"
    obtain w' where w': "reset_loop ?w1 off sz sp (i + 1) = Inr w'" "wsize w' = sz"
      "length (buckets w') = length (buckets w)"
      and pt: "\<forall>p < length (buckets w). buckets w' ! p =
              (if \<exists>j. i + 1 \<le> j \<and> j < sp \<and> nat ((off + j + 1) mod sz) = p then new_Bucket
               else buckets ?w1 ! p)"
      by auto
    have "buckets w' ! p =
              (if \<exists>j. i \<le> j \<and> j < sp \<and> nat ((off + j + 1) mod sz) = p then new_Bucket
               else buckets w ! p)" if p: "p < length (buckets w)" for p
    proof -
      define E1 where "E1 \<longleftrightarrow> (\<exists>j. i + 1 \<le> j \<and> j < sp \<and> nat ((off + j + 1) mod sz) = p)"
      have step: "(\<exists>j. i \<le> j \<and> j < sp \<and> nat ((off + j + 1) mod sz) = p) \<longleftrightarrow> (?q = p \<or> E1)"
        unfolding E1_def by (rule ex_from_step [OF True])
      have A: "buckets w' ! p = (if E1 then new_Bucket else buckets ?w1 ! p)"
        unfolding E1_def using pt p by blast
      have B: "buckets ?w1 ! p = (if ?q = p then new_Bucket else buckets w ! p)"
        using p by (simp add: nth_list_update)
      show ?thesis unfolding step A B by simp
    qed
    with w' show ?thesis
      by (subst reset_loop.simps) (simp add: True nz rb)
  qed
qed


lemma span_wf:
  assumes "0 < interval rw" "lastTime rw \<le> now" "0 \<le> rw_size rw"
  shows "span rw now = Inr (spec_span rw now)"
proof -
  have "0 \<le> (now - lastTime rw) div interval rw"
    using assms by (simp add: pos_imp_zdiv_nonneg_iff)
  then show ?thesis
    using assms by (auto simp: span_def spec_span_def Since_def go_quo_nonneg Let_def min_def)
qed

lemma spec_span_bounds:
  assumes "0 < interval rw" "lastTime rw \<le> now" "0 \<le> rw_size rw"
  shows "0 \<le> spec_span rw now" "spec_span rw now \<le> rw_size rw"
  using assms by (simp_all add: spec_span_def pos_imp_zdiv_nonneg_iff)

lemma updateOffset_zero:
  assumes "span rw t_span = Inr sp" "sp \<le> 0"
  shows "updateOffset rw t_span now = Inr rw"
  using assms by (simp add: updateOffset_def)

lemma updateOffset_wf:
  assumes wf: "wf_window rw" and ival: "0 < interval rw"
    and t1: "lastTime rw \<le> t_span" and t2: "t_span \<le> now"
    and sp: "sp = spec_span rw t_span" "1 \<le> sp"
  shows "\<exists>bs. updateOffset rw t_span now =
           Inr (rw\<lparr>win := (win rw)\<lparr>buckets := bs\<rparr>,
                   offset := (offset rw + sp) mod rw_size rw,
                   lastTime := now - (now - lastTime rw) mod interval rw\<rparr>) \<and>
           length bs = length (buckets (win rw)) \<and>
           (\<forall>p < length bs. bs ! p =
              (if \<exists>i. 0 \<le> i \<and> i < sp \<and> nat ((offset rw + i + 1) mod rw_size rw) = p
               then new_Bucket else buckets (win rw) ! p))"
proof -
  from wf have sz: "1 \<le> rw_size rw" "wsize (win rw) = rw_size rw"
    "int (length (buckets (win rw))) = rw_size rw" "0 \<le> offset rw"
    by (simp_all add: wf_window_def)
  have span: "span rw t_span = Inr sp"
    using span_wf[of rw t_span] ival t1 sz sp by simp
  from reset_loop_wf[OF sz(1) sz(2) sz(3) sz(4), of 0 sp]
  obtain w' where w': "reset_loop (win rw) (offset rw) (rw_size rw) sp 0 = Inr w'"
    "wsize w' = rw_size rw" "length (buckets w') = length (buckets (win rw))"
    and pt: "\<forall>p < length (buckets (win rw)). buckets w' ! p =
              (if \<exists>j. 0 \<le> j \<and> j < sp \<and> nat ((offset rw + j + 1) mod rw_size rw) = p then new_Bucket
               else buckets (win rw) ! p)"
    by auto
  have weq: "w' = (win rw)\<lparr>buckets := buckets w'\<rparr>"
    using w'(2) sz(2) by (cases w', cases "win rw") simp
  have "updateOffset rw t_span now =
           Inr (rw\<lparr>win := w',
                   offset := (offset rw + sp) mod rw_size rw,
                   lastTime := now - (now - lastTime rw) mod interval rw\<rparr>)"
    using span sp(2) w'(1) sz ival t1 t2
    by (simp add: updateOffset_def go_rem_nonneg)
  then have "updateOffset rw t_span now =
           Inr (rw\<lparr>win := (win rw)\<lparr>buckets := buckets w'\<rparr>,
                   offset := (offset rw + sp) mod rw_size rw,
                   lastTime := now - (now - lastTime rw) mod interval rw\<rparr>)"
    using weq by simp
  moreover have "\<forall>p < length (buckets w'). buckets w' ! p =
              (if \<exists>j. 0 \<le> j \<and> j < sp \<and> nat ((offset rw + j + 1) mod rw_size rw) = p then new_Bucket
               else buckets (win rw) ! p)"
    using pt w'(3) by simp
  ultimately show ?thesis
    using w'(3) by blast
qed


lemma window_add_wf:
  assumes "1 \<le> wsize w" "int (length (buckets w)) = wsize w" "0 \<le> off" "off < wsize w"
  shows "window_add w off v = Inr (w\<lparr>buckets := (buckets w)[nat off := Bucket_add (buckets w ! nat off) v]\<rparr>)"
  using assms by (simp add: window_add_def window_slot_wf)

lemma Add_same_bucket:
  assumes wf: "wf_window rw" and span: "span rw t_span = Inr sp" "sp \<le> 0"
  shows "Add rw t_span now v =
           Inr (rw\<lparr>win := (win rw)\<lparr>buckets :=
                  (buckets (win rw))[nat (offset rw) := Bucket_add (buckets (win rw) ! nat (offset rw)) v]\<rparr>\<rparr>)"
  using wf by (simp add: Add_def updateOffset_zero[OF span] window_add_wf wf_window_def)

lemma Add_next_bucket:
  assumes wf: "wf_window rw" and ival: "0 < interval rw"
    and t1: "lastTime rw \<le> t_span" and t2: "t_span \<le> now"
    and sp: "sp = spec_span rw t_span" "1 \<le> sp"
    and u: "updateOffset rw t_span now =
           Inr (rw\<lparr>win := (win rw)\<lparr>buckets := bs\<rparr>,
                   offset := (offset rw + sp) mod rw_size rw,
                   lastTime := now - (now - lastTime rw) mod interval rw\<rparr>)"
       "length bs = length (buckets (win rw))"
       "\<forall>p < length bs. bs ! p =
              (if \<exists>i. 0 \<le> i \<and> i < sp \<and> nat ((offset rw + i + 1) mod rw_size rw) = p
               then new_Bucket else buckets (win rw) ! p)"
  shows "Add rw t_span now v =
           Inr (rw\<lparr>win := (win rw)\<lparr>buckets :=
                     bs[nat ((offset rw + sp) mod rw_size rw) := \<lparr>Sum = v, Count = 1\<rparr>]\<rparr>,
                   offset := (offset rw + sp) mod rw_size rw,
                   lastTime := now - (now - lastTime rw) mod interval rw\<rparr>)"
proof -
  from wf have sz: "1 \<le> rw_size rw" "wsize (win rw) = rw_size rw"
    "int (length (buckets (win rw))) = rw_size rw" "0 \<le> offset rw"
    by (simp_all add: wf_window_def)
  let ?o = "(offset rw + sp) mod rw_size rw"
  have o: "0 \<le> ?o" "?o < rw_size rw" using sz by simp_all
  then have lt: "nat ?o < length bs" using u(2) sz(3) by linarith
  have "\<exists>i. 0 \<le> i \<and> i < sp \<and> nat ((offset rw + i + 1) mod rw_size rw) = nat ?o"
    using sp(2) by (intro exI[of _ "sp - 1"]) simp
  with u(3) lt have "bs ! nat ?o = new_Bucket" by simp
  then have "Bucket_add (bs ! nat ?o) v = \<lparr>Sum = v, Count = 1\<rparr>"
    by (simp add: Bucket_add_def new_Bucket_def)
  then show ?thesis
    using u(1,2) sz o by (simp add: Add_def window_add_wf)
qed

lemma realign:
  fixes now lt ival :: int
  assumes "0 < ival"
  shows "now - (now - lt) mod ival \<le> now" "now < now - (now - lt) mod ival + ival"
    "(now - (now - lt) mod ival - lt) mod ival = 0"
    "now - (now - lt) mod ival = lt + ival * ((now - lt) div ival)"
proof -
  show "now - (now - lt) mod ival \<le> now" using assms by simp
  show "now < now - (now - lt) mod ival + ival"
    using pos_mod_bound[OF assms, of "now - lt"] by linarith
  show eq: "now - (now - lt) mod ival = lt + ival * ((now - lt) div ival)"
    using mult_div_mod_eq[of ival "now - lt"] by linarith
  show "(now - (now - lt) mod ival - lt) mod ival = 0"
    unfolding eq by simp
qed

section \<open>Add\<close>

text \<open>
  C2. On a well-formed window with a positive interval, whose \<open>lastTime\<close> is not after
  the clock, let \<open>sp\<close> be \<open>min (floor ((t - lastTime) / interval)) size\<close> at the reading
  \<open>t\<close> that \<open>span()\<close> takes; \<open>span()\<close> returns \<open>sp\<close>. When \<open>sp \<ge> 1\<close>, \<open>updateOffset\<close>
  resets the buckets at the slots \<open>(offset + i + 1) mod size\<close> for \<open>i\<close> in \<open>0..sp-1\<close> to
  zero and leaves every other bucket as it was, \<open>offset\<close> becomes
  \<open>(offset + sp) mod size\<close>, and \<open>lastTime\<close> becomes
  \<open>now - ((now - lastTime) mod interval)\<close> for the reading \<open>now\<close> of \<open>timex.Now()\<close>: an
  interval boundary counted from the old \<open>lastTime\<close>, at or before \<open>now\<close> and less than
  one interval before it, equal to \<open>now\<close> only when the remainder is zero. \<open>Add\<close> then
  writes its value into the bucket at the new offset, which was just reset. When
  \<open>sp \<le> 0\<close>, \<open>updateOffset\<close> returns the window as it is (same offset, same \<open>lastTime\<close>,
  no bucket reset) and \<open>Add\<close> only adds its value to the bucket at \<open>offset\<close>.
\<close>

theorem Add_updateOffset:
  assumes wf: "wf_window rw" and ival: "0 < interval rw"
    and t1: "lastTime rw \<le> t_span" and t2: "t_span \<le> now"
    and sp: "sp = min ((t_span - lastTime rw) div interval rw) (rw_size rw)"
  shows "span rw t_span = Inr sp \<and>
    (1 \<le> sp \<longrightarrow>
       (\<exists>u. updateOffset rw t_span now = Inr u \<and>
          length (buckets (win u)) = length (buckets (win rw)) \<and>
          (\<forall>i. 0 \<le> i \<and> i < sp \<longrightarrow>
             buckets (win u) ! nat ((offset rw + i + 1) mod rw_size rw) = \<lparr>Sum = 0, Count = 0\<rparr>) \<and>
          (\<forall>p < length (buckets (win rw)).
             (\<forall>i. 0 \<le> i \<and> i < sp \<longrightarrow> nat ((offset rw + i + 1) mod rw_size rw) \<noteq> p) \<longrightarrow>
             buckets (win u) ! p = buckets (win rw) ! p) \<and>
          offset u = (offset rw + sp) mod rw_size rw \<and>
          lastTime u = now - (now - lastTime rw) mod interval rw \<and>
          lastTime u \<le> now \<and> now < lastTime u + interval rw \<and>
          (lastTime u - lastTime rw) mod interval rw = 0 \<and>
          (lastTime u = now \<longleftrightarrow> (now - lastTime rw) mod interval rw = 0) \<and>
          Add rw t_span now v =
            Inr (u\<lparr>win := (win u)\<lparr>buckets := (buckets (win u))[nat (offset u) := \<lparr>Sum = v, Count = 1\<rparr>]\<rparr>\<rparr>))) \<and>
    (sp \<le> 0 \<longrightarrow>
       updateOffset rw t_span now = Inr rw \<and>
       Add rw t_span now v =
         Inr (rw\<lparr>win := (win rw)\<lparr>buckets :=
                (buckets (win rw))[nat (offset rw) := Bucket_add (buckets (win rw) ! nat (offset rw)) v]\<rparr>\<rparr>))"
proof (intro conjI impI)
  from wf have sz: "1 \<le> rw_size rw" "int (length (buckets (win rw))) = rw_size rw"
    by (simp_all add: wf_window_def)
  have sp': "sp = spec_span rw t_span" using sp by (simp add: spec_span_def)
  show span: "span rw t_span = Inr sp"
    using span_wf[of rw t_span] ival t1 sz sp' by simp
  {
    assume "sp \<le> 0"
    then show "updateOffset rw t_span now = Inr rw" by (rule updateOffset_zero[OF span])
    show "Add rw t_span now v =
         Inr (rw\<lparr>win := (win rw)\<lparr>buckets :=
                (buckets (win rw))[nat (offset rw) := Bucket_add (buckets (win rw) ! nat (offset rw)) v]\<rparr>\<rparr>)"
      by (rule Add_same_bucket[OF wf span \<open>sp \<le> 0\<close>])
  }
  assume pos: "1 \<le> sp"
  from updateOffset_wf[OF wf ival t1 t2 sp' pos]
  obtain bs where u: "updateOffset rw t_span now =
           Inr (rw\<lparr>win := (win rw)\<lparr>buckets := bs\<rparr>,
                   offset := (offset rw + sp) mod rw_size rw,
                   lastTime := now - (now - lastTime rw) mod interval rw\<rparr>)"
       "length bs = length (buckets (win rw))"
       "\<forall>p < length bs. bs ! p =
              (if \<exists>i. 0 \<le> i \<and> i < sp \<and> nat ((offset rw + i + 1) mod rw_size rw) = p
               then new_Bucket else buckets (win rw) ! p)"
    by blast
  let ?u = "rw\<lparr>win := (win rw)\<lparr>buckets := bs\<rparr>,
                   offset := (offset rw + sp) mod rw_size rw,
                   lastTime := now - (now - lastTime rw) mod interval rw\<rparr>"
  have reset: "bs ! nat ((offset rw + i + 1) mod rw_size rw) = \<lparr>Sum = 0, Count = 0\<rparr>"
    if "0 \<le> i \<and> i < sp" for i
  proof -
    have "nat ((offset rw + i + 1) mod rw_size rw) < length bs"
      using sz u(2) by (simp add: nat_less_iff)
    moreover have "\<exists>j. 0 \<le> j \<and> j < sp \<and>
        nat ((offset rw + j + 1) mod rw_size rw) = nat ((offset rw + i + 1) mod rw_size rw)"
      using that by blast
    ultimately show ?thesis using u(3) by (simp add: new_Bucket_def)
  qed
  have keep: "bs ! p = buckets (win rw) ! p"
    if "p < length (buckets (win rw))"
      "\<forall>i. 0 \<le> i \<and> i < sp \<longrightarrow> nat ((offset rw + i + 1) mod rw_size rw) \<noteq> p" for p
    using that u(2,3) by auto
  have add: "Add rw t_span now v =
            Inr (?u\<lparr>win := (win ?u)\<lparr>buckets := (buckets (win ?u))[nat (offset ?u) := \<lparr>Sum = v, Count = 1\<rparr>]\<rparr>\<rparr>)"
    using Add_next_bucket[OF wf ival t1 t2 sp' pos u, of v] by simp
  show "\<exists>u. updateOffset rw t_span now = Inr u \<and>
          length (buckets (win u)) = length (buckets (win rw)) \<and>
          (\<forall>i. 0 \<le> i \<and> i < sp \<longrightarrow>
             buckets (win u) ! nat ((offset rw + i + 1) mod rw_size rw) = \<lparr>Sum = 0, Count = 0\<rparr>) \<and>
          (\<forall>p < length (buckets (win rw)).
             (\<forall>i. 0 \<le> i \<and> i < sp \<longrightarrow> nat ((offset rw + i + 1) mod rw_size rw) \<noteq> p) \<longrightarrow>
             buckets (win u) ! p = buckets (win rw) ! p) \<and>
          offset u = (offset rw + sp) mod rw_size rw \<and>
          lastTime u = now - (now - lastTime rw) mod interval rw \<and>
          lastTime u \<le> now \<and> now < lastTime u + interval rw \<and>
          (lastTime u - lastTime rw) mod interval rw = 0 \<and>
          (lastTime u = now \<longleftrightarrow> (now - lastTime rw) mod interval rw = 0) \<and>
          Add rw t_span now v =
            Inr (u\<lparr>win := (win u)\<lparr>buckets := (buckets (win u))[nat (offset u) := \<lparr>Sum = v, Count = 1\<rparr>]\<rparr>\<rparr>)"
  proof (intro exI[of _ ?u] conjI)
    show "updateOffset rw t_span now = Inr ?u" by (rule u(1))
    show "Add rw t_span now v =
            Inr (?u\<lparr>win := (win ?u)\<lparr>buckets := (buckets (win ?u))[nat (offset ?u) := \<lparr>Sum = v, Count = 1\<rparr>]\<rparr>\<rparr>)"
      by (rule add)
  qed (use reset keep u(2) realign(1-3)[OF ival, of now "lastTime rw"] in simp_all)
qed

theorem Add_updateOffset_witness:
  "wf_window example_window \<and> 0 < interval example_window \<and>
   lastTime example_window \<le> 1600 \<and> (1600 :: int) \<le> 1610 \<and>
   span example_window 1600 = Inr 2 \<and>
   (\<exists>u. updateOffset example_window 1600 1610 = Inr u \<and>
      buckets (win u) ! 2 = \<lparr>Sum = 0, Count = 0\<rparr> \<and>
      buckets (win u) ! 3 = \<lparr>Sum = 0, Count = 0\<rparr> \<and>
      buckets (win u) ! 0 = \<lparr>Sum = 2, Count = 3\<rparr> \<and>
      buckets (win u) ! 1 = \<lparr>Sum = 1, Count = 1\<rparr> \<and>
      offset u = 3 \<and> lastTime u = 1500 \<and>
      Add example_window 1600 1610 1 =
        Inr (u\<lparr>win := (win u)\<lparr>buckets := (buckets (win u))[3 := \<lparr>Sum = 1, Count = 1\<rparr>]\<rparr>\<rparr>)) \<and>
   span example_window 1100 = Inr 0 \<and>
   updateOffset example_window 1100 1100 = Inr example_window \<and>
   Add example_window 1100 1100 1 =
     Inr (example_window\<lparr>win := (win example_window)\<lparr>buckets :=
            [\<lparr>Sum = 2, Count = 3\<rparr>, \<lparr>Sum = 2, Count = 2\<rparr>,
             \<lparr>Sum = 0, Count = 2\<rparr>, \<lparr>Sum = 4, Count = 4\<rparr>]\<rparr>\<rparr>)"
proof -
  have wf: "wf_window example_window" by (simp add: wf_window_def example_window_def)
  have ival: "0 < interval example_window" by (simp add: example_window_def)
  have t1: "lastTime example_window \<le> 1600" "lastTime example_window \<le> 1100"
    by (simp_all add: example_window_def)
  have sp2: "2 = min ((1600 - lastTime example_window) div interval example_window)
                   (rw_size example_window)"
    by (simp add: example_window_def)
  have sp0: "0 = min ((1100 - lastTime example_window) div interval example_window)
                   (rw_size example_window)"
    by (simp add: example_window_def)
  have t2: "(1600 :: int) \<le> 1610" "(1100 :: int) \<le> 1100" by simp_all
  note A = Add_updateOffset [OF wf ival t1(1) t2(1) sp2, of 1]
  note B = Add_updateOffset [OF wf ival t1(2) t2(2) sp0, of 1]
  from A obtain u where u: "updateOffset example_window 1600 1610 = Inr u"
    "\<forall>i. 0 \<le> i \<and> i < 2 \<longrightarrow>
       buckets (win u) ! nat ((offset example_window + i + 1) mod rw_size example_window)
         = \<lparr>Sum = 0, Count = 0\<rparr>"
    "\<forall>p < length (buckets (win example_window)).
       (\<forall>i. 0 \<le> i \<and> i < 2 \<longrightarrow>
          nat ((offset example_window + i + 1) mod rw_size example_window) \<noteq> p) \<longrightarrow>
       buckets (win u) ! p = buckets (win example_window) ! p"
    "offset u = (offset example_window + 2) mod rw_size example_window"
    "lastTime u = 1610 - (1610 - lastTime example_window) mod interval example_window"
    "Add example_window 1600 1610 1 =
       Inr (u\<lparr>win := (win u)\<lparr>buckets := (buckets (win u))[nat (offset u) := \<lparr>Sum = 1, Count = 1\<rparr>]\<rparr>\<rparr>)"
    by auto
  have r2: "buckets (win u) ! 2 = \<lparr>Sum = 0, Count = 0\<rparr>"
    using u(2)[rule_format, of 0] by (simp add: example_window_def)
  have r3: "buckets (win u) ! 3 = \<lparr>Sum = 0, Count = 0\<rparr>"
    using u(2)[rule_format, of 1] by (simp add: example_window_def)
  have other: "nat ((offset example_window + i + 1) mod rw_size example_window) \<noteq> p"
    if "0 \<le> i \<and> i < 2" "p = 0 \<or> p = 1" for i p
  proof -
    from that(1) have "i = 0 \<or> i = 1" by auto
    with that(2) show ?thesis by (auto simp: example_window_def)
  qed
  have k0: "buckets (win u) ! 0 = \<lparr>Sum = 2, Count = 3\<rparr>"
    using u(3)[rule_format, of 0] other[of _ 0] by (simp add: example_window_def)
  have k1: "buckets (win u) ! 1 = \<lparr>Sum = 1, Count = 1\<rparr>"
    using u(3)[rule_format, of 1] other[of _ 1] by (simp add: example_window_def)
  have o: "offset u = 3" "lastTime u = 1500" using u(4,5) by (simp_all add: example_window_def)
  have "\<exists>u. updateOffset example_window 1600 1610 = Inr u \<and>
      buckets (win u) ! 2 = \<lparr>Sum = 0, Count = 0\<rparr> \<and>
      buckets (win u) ! 3 = \<lparr>Sum = 0, Count = 0\<rparr> \<and>
      buckets (win u) ! 0 = \<lparr>Sum = 2, Count = 3\<rparr> \<and>
      buckets (win u) ! 1 = \<lparr>Sum = 1, Count = 1\<rparr> \<and>
      offset u = 3 \<and> lastTime u = 1500 \<and>
      Add example_window 1600 1610 1 =
        Inr (u\<lparr>win := (win u)\<lparr>buckets := (buckets (win u))[3 := \<lparr>Sum = 1, Count = 1\<rparr>]\<rparr>\<rparr>)"
    using u(1,6) r2 r3 k0 k1 o by (intro exI[of _ u]) simp
  moreover have "span example_window 1600 = Inr 2" using A by simp
  moreover have "span example_window 1100 = Inr 0"
    "updateOffset example_window 1100 1100 = Inr example_window"
    using B by simp_all
  moreover have "Add example_window 1100 1100 1 =
     Inr (example_window\<lparr>win := (win example_window)\<lparr>buckets :=
            [\<lparr>Sum = 2, Count = 3\<rparr>, \<lparr>Sum = 2, Count = 2\<rparr>,
             \<lparr>Sum = 0, Count = 2\<rparr>, \<lparr>Sum = 4, Count = 4\<rparr>]\<rparr>\<rparr>)"
    using B by (simp add: example_window_def Bucket_add_def)
  ultimately show ?thesis using wf ival t1(1) by simp
qed

section \<open>Reduce\<close>

lemma fold_visit_readonly:
  assumes "\<forall>b s. fst (fn b s) = b"
  shows "fold (visit fn) js (bs, acc) = (bs, fold (\<lambda>j a. snd (fn (bs ! j) a)) js acc)"
proof (induction js arbitrary: acc)
  case Nil
  show ?case by simp
next
  case (Cons j js)
  have "visit fn j (bs, acc) = (bs, snd (fn (bs ! j) acc))"
    using assms[rule_format, of "bs ! j" acc]
    by (cases "fn (bs ! j) acc") (simp add: visit_def)
  then show ?case using Cons.IH by simp
qed

lemma length_spec_range: "length (spec_range rw sp n) = nat n"
  by (simp add: spec_range_def)

lemma Reduce_wf:
  assumes wf: "wf_window rw" and ival: "0 < interval rw" and t: "lastTime rw \<le> now"
    and sp: "sp = spec_span rw now"
    and n: "n = (if sp = 0 \<and> ignoreCurrent rw then rw_size rw - 1 else rw_size rw - sp)"
  shows "Reduce rw now fn acc =
           Inr (rw\<lparr>win := (win rw)\<lparr>buckets :=
                  fst (fold (visit fn) (spec_range rw sp n) (buckets (win rw), acc))\<rparr>\<rparr>,
                snd (fold (visit fn) (spec_range rw sp n) (buckets (win rw), acc)))"
proof -
  from wf have sz: "1 \<le> rw_size rw" "wsize (win rw) = rw_size rw"
    "int (length (buckets (win rw))) = rw_size rw" "0 \<le> offset rw"
    by (simp_all add: wf_window_def)
  have span: "span rw now = Inr sp"
    using span_wf[of rw now] ival t sz sp by simp
  show ?thesis
  proof (cases "0 < n")
    case False
    then have "[0..n - 1] = []" by simp
    then have "spec_range rw sp n = []" by (simp add: spec_range_def)
    with False n span show ?thesis by (simp add: Reduce_def Let_def)
  next
    case True
    have start: "0 \<le> (offset rw + sp + 1) mod rw_size rw" using sz by simp
    have "window_reduce (win rw) ((offset rw + sp + 1) mod rw_size rw) n fn acc =
           Inr ((win rw)\<lparr>buckets := fst (fold (visit fn) (spec_range rw sp n) (buckets (win rw), acc))\<rparr>,
                snd (fold (visit fn) (spec_range rw sp n) (buckets (win rw), acc)))"
      unfolding window_reduce_def spec_range_def
      using reduce_loop_wf[of "win rw" "(offset rw + sp + 1) mod rw_size rw" 0 n fn acc] sz start
      by simp
    moreover have "0 \<le> offset rw + sp + 1"
      using sz spec_span_bounds(1)[of rw now] ival t sp by simp
    ultimately show ?thesis
      using True n span sz by (simp add: Reduce_def go_rem_nonneg Let_def)
  qed
qed

lemma reduce_loop_fields:
  "reduce_loop w start n fn i acc = Inr (w', a) \<Longrightarrow>
   wsize w' = wsize w \<and> length (buckets w') = length (buckets w)"
proof (induction w start n fn i acc rule: reduce_loop.induct)
  case (1 w start n fn i acc)
  show ?case
  proof (cases "i < n")
    case False
    with "1.prems" show ?thesis by (subst (asm) reduce_loop.simps) simp
  next
    case True
    from "1.prems" True obtain j where slot: "window_slot w (start + i) = Inr j"
      by (subst (asm) reduce_loop.simps) (auto split: sum.splits)
    obtain b' acc' where fn: "fn (buckets w ! j) acc = (b', acc')" by (cases "fn (buckets w ! j) acc")
    from "1.prems" True slot fn
    have "reduce_loop (w\<lparr>buckets := (buckets w)[j := b']\<rparr>) start n fn (i + 1) acc' = Inr (w', a)"
      by (subst (asm) reduce_loop.simps) simp
    from "1.IH"[OF True slot fn[symmetric] this] show ?thesis by simp
  qed
qed

lemma reduce_loop_readonly:
  "\<forall>b s. fst (fn b s) = b \<Longrightarrow> reduce_loop w start n fn i acc = Inr (w', a) \<Longrightarrow> w' = w"
proof (induction w start n fn i acc rule: reduce_loop.induct)
  case (1 w start n fn i acc)
  note ro = "1.prems"(1) and run = "1.prems"(2)
  show ?case
  proof (cases "i < n")
    case False
    with run show ?thesis by (subst (asm) reduce_loop.simps) simp
  next
    case True
    from run True obtain j where slot: "window_slot w (start + i) = Inr j"
      by (subst (asm) reduce_loop.simps) (auto split: sum.splits)
    obtain b' acc' where fn: "fn (buckets w ! j) acc = (b', acc')" by (cases "fn (buckets w ! j) acc")
    have b': "b' = buckets w ! j" using ro[rule_format, of "buckets w ! j" acc] fn by simp
    have same: "w\<lparr>buckets := (buckets w)[j := b']\<rparr> = w" by (simp add: b')
    from run True slot fn
    have "reduce_loop (w\<lparr>buckets := (buckets w)[j := b']\<rparr>) start n fn (i + 1) acc' = Inr (w', a)"
      by (subst (asm) reduce_loop.simps) simp
    from "1.IH"[OF True slot fn[symmetric] ro this] same show ?thesis by simp
  qed
qed

lemma Reduce_fields:
  assumes "Reduce rw now fn acc = Inr (rw', a)"
  shows "rw' = rw\<lparr>win := win rw'\<rparr> \<and> wsize (win rw') = wsize (win rw) \<and>
         length (buckets (win rw')) = length (buckets (win rw))"
  using assms
  by (auto simp: Reduce_def window_reduce_def Let_def split: sum.splits if_splits
           dest: reduce_loop_fields)

lemma Reduce_readonly:
  assumes "\<forall>b s. fst (fn b s) = b" "Reduce rw now fn acc = Inr (rw', a)"
  shows "rw' = rw"
  using assms(2) reduce_loop_readonly[OF assms(1)]
  by (auto simp: Reduce_def window_reduce_def Let_def split: sum.splits if_splits)


text \<open>
  C3. On a well-formed window with a positive interval, whose \<open>lastTime\<close> is not after
  the clock, let \<open>sp\<close> be \<open>min (floor (elapsed / interval)) size\<close>, which is what
  \<open>span()\<close> returns, and let \<open>n\<close> be \<open>size - 1\<close> when \<open>sp = 0\<close> and \<open>ignoreCurrent\<close>
  is set, and \<open>size - sp\<close> otherwise. Then \<open>Reduce\<close> invokes \<open>fn\<close> on exactly the
  slots of the spec's range, in its order: \<open>n\<close> slots, from \<open>(offset + sp + 1) mod size\<close>
  on, consecutive modulo the size. For a callback that does not write into its bucket
  the result is the fold of the callback over the buckets at these slots, and the
  window is returned as it was. When \<open>size - sp \<le> 0\<close>, \<open>fn\<close> is invoked on no bucket:
  the captured state comes back as it was given, whatever \<open>fn\<close> is.
\<close>

theorem Reduce_range:
  assumes wf: "wf_window rw" and ival: "0 < interval rw" and t: "lastTime rw \<le> now"
    and sp: "sp = min ((now - lastTime rw) div interval rw) (rw_size rw)"
    and n: "n = (if sp = 0 \<and> ignoreCurrent rw then rw_size rw - 1 else rw_size rw - sp)"
  shows "span rw now = Inr sp \<and>
    length (spec_range rw sp n) = nat n \<and>
    Reduce rw now fn acc =
      Inr (rw\<lparr>win := (win rw)\<lparr>buckets :=
             fst (fold (visit fn) (spec_range rw sp n) (buckets (win rw), acc))\<rparr>\<rparr>,
           snd (fold (visit fn) (spec_range rw sp n) (buckets (win rw), acc))) \<and>
    ((\<forall>b s. fst (fn b s) = b) \<longrightarrow>
       Reduce rw now fn acc =
         Inr (rw, fold (\<lambda>j a. snd (fn (buckets (win rw) ! j) a)) (spec_range rw sp n) acc)) \<and>
    (rw_size rw - sp \<le> 0 \<longrightarrow> Reduce rw now fn acc = Inr (rw, acc))"
proof -
  from wf have sz: "0 \<le> rw_size rw" by (simp add: wf_window_def)
  have sp': "sp = spec_span rw now" using sp by (simp add: spec_span_def)
  have span: "span rw now = Inr sp"
    using span_wf[OF ival t sz] sp' by simp
  note R = Reduce_wf[OF wf ival t sp' n, of fn acc]
  have ro: "Reduce rw now fn acc =
         Inr (rw, fold (\<lambda>j a. snd (fn (buckets (win rw) ! j) a)) (spec_range rw sp n) acc)"
    if "\<forall>b s. fst (fn b s) = b"
    using R by (simp add: fold_visit_readonly[OF that])
  have none: "Reduce rw now fn acc = Inr (rw, acc)" if "rw_size rw - sp \<le> 0"
  proof -
    from that wf sp have "sp \<noteq> 0" by (auto simp: wf_window_def)
    with that n have "n \<le> 0" by simp
    then have "spec_range rw sp n = []" by (simp add: spec_range_def)
    with R show ?thesis by simp
  qed
  show ?thesis using span R ro none by (simp add: length_spec_range)
qed

text \<open>
  C8. \<open>Reduce\<close> is read-only and idempotent. Whenever a call returns, the fields
  \<open>offset\<close>, \<open>lastTime\<close>, \<open>size\<close>, \<open>interval\<close> and \<open>ignoreCurrent\<close> and the number of
  buckets are what they were, for every callback. For a callback that aggregates, that
  is, one that does not write into the bucket it is handed, every bucket keeps its sum
  and count, so the whole window is unchanged, and a second \<open>Reduce\<close> at the same clock
  reading with no \<open>Add\<close> between returns the identical aggregate.
\<close>

theorem Reduce_read_only:
  assumes "Reduce rw now fn acc = Inr (rw', a)"
  shows "offset rw' = offset rw \<and> lastTime rw' = lastTime rw \<and> rw_size rw' = rw_size rw \<and>
    interval rw' = interval rw \<and> ignoreCurrent rw' = ignoreCurrent rw \<and>
    wsize (win rw') = wsize (win rw) \<and>
    length (buckets (win rw')) = length (buckets (win rw)) \<and>
    ((\<forall>b s. fst (fn b s) = b) \<longrightarrow> rw' = rw \<and> Reduce rw' now fn acc = Inr (rw', a))"
proof -
  from Reduce_fields[OF assms] have f: "rw' = rw\<lparr>win := win rw'\<rparr>"
    "wsize (win rw') = wsize (win rw)" "length (buckets (win rw')) = length (buckets (win rw))"
    by simp_all
  have "offset rw' = offset rw \<and> lastTime rw' = lastTime rw \<and> rw_size rw' = rw_size rw \<and>
    interval rw' = interval rw \<and> ignoreCurrent rw' = ignoreCurrent rw"
    by (subst f(1), simp)+
  moreover have "rw' = rw \<and> Reduce rw' now fn acc = Inr (rw', a)" if "\<forall>b s. fst (fn b s) = b"
    using Reduce_readonly[OF that assms] assms by simp
  ultimately show ?thesis using f(2,3) by blast
qed

theorem Reduce_range_witness:
  "wf_window example_window \<and> 0 < interval example_window \<and>
   lastTime example_window \<le> 1600 \<and>
   span example_window 1600 = Inr 2 \<and>
   Reduce example_window 1600 (\<lambda>b tr. (b, tr @ [b])) [] =
     Inr (example_window, [\<lparr>Sum = 2, Count = 3\<rparr>, \<lparr>Sum = 1, Count = 1\<rparr>]) \<and>
   Reduce (IgnoreCurrentBucket example_window) 1100 (\<lambda>b tr. (b, tr @ [b])) [] =
     Inr (IgnoreCurrentBucket example_window,
          [\<lparr>Sum = 0, Count = 2\<rparr>, \<lparr>Sum = 4, Count = 4\<rparr>, \<lparr>Sum = 2, Count = 3\<rparr>]) \<and>
   Reduce example_window 2000 (\<lambda>b tr. (b, tr @ [b])) [] = Inr (example_window, [])"
proof -
  let ?ig = "IgnoreCurrentBucket example_window"
  let ?fn = "\<lambda>(b :: Bucket) tr. (b, tr @ [b])"
  have ro: "\<forall>b s. fst (?fn b s) = b" by simp
  have wf: "wf_window example_window" "wf_window ?ig"
    by (simp_all add: wf_window_def example_window_def IgnoreCurrentBucket_def)
  have ival: "0 < interval example_window" "0 < interval ?ig"
    by (simp_all add: example_window_def IgnoreCurrentBucket_def)
  have t: "lastTime example_window \<le> 1600" "lastTime ?ig \<le> 1100" "lastTime example_window \<le> 2000"
    by (simp_all add: example_window_def IgnoreCurrentBucket_def)
  have sp: "2 = min ((1600 - lastTime example_window) div interval example_window)
                  (rw_size example_window)"
    "0 = min ((1100 - lastTime ?ig) div interval ?ig) (rw_size ?ig)"
    "4 = min ((2000 - lastTime example_window) div interval example_window)
                  (rw_size example_window)"
    by (simp_all add: example_window_def IgnoreCurrentBucket_def)
  have n: "2 = (if (2::int) = 0 \<and> ignoreCurrent example_window then rw_size example_window - 1
                else rw_size example_window - 2)"
    "3 = (if (0::int) = 0 \<and> ignoreCurrent ?ig then rw_size ?ig - 1 else rw_size ?ig - 0)"
    "0 = (if (4::int) = 0 \<and> ignoreCurrent example_window then rw_size example_window - 1
                else rw_size example_window - 4)"
    by (simp_all add: example_window_def IgnoreCurrentBucket_def)
  have r1: "spec_range example_window 2 2 = [0, 1]"
    by (simp add: spec_range_def example_window_def upto.simps)
  have r2: "spec_range ?ig 0 3 = [2, 3, 0]"
    by (simp add: spec_range_def example_window_def upto.simps IgnoreCurrentBucket_def)
  have bs: "buckets (win example_window) = [\<lparr>Sum = 2, Count = 3\<rparr>, \<lparr>Sum = 1, Count = 1\<rparr>,
                       \<lparr>Sum = 0, Count = 2\<rparr>, \<lparr>Sum = 4, Count = 4\<rparr>]"
    "buckets (win ?ig) = [\<lparr>Sum = 2, Count = 3\<rparr>, \<lparr>Sum = 1, Count = 1\<rparr>,
                       \<lparr>Sum = 0, Count = 2\<rparr>, \<lparr>Sum = 4, Count = 4\<rparr>]"
    by (simp_all add: example_window_def IgnoreCurrentBucket_def)
  note A = Reduce_range [OF wf(1) ival(1) t(1) sp(1) n(1), of ?fn "[]"]
  note B = Reduce_range [OF wf(2) ival(2) t(2) sp(2) n(2), of ?fn "[]"]
  note C = Reduce_range [OF wf(1) ival(1) t(3) sp(3) n(3), of ?fn "[]"]
  have "span example_window 1600 = Inr 2" using A by simp
  moreover have "Reduce example_window 1600 ?fn [] =
     Inr (example_window, [\<lparr>Sum = 2, Count = 3\<rparr>, \<lparr>Sum = 1, Count = 1\<rparr>])"
    using A [THEN conjunct2, THEN conjunct2, THEN conjunct2, THEN conjunct1, THEN mp, OF ro]
    by (simp add: r1 bs)
  moreover have "Reduce ?ig 1100 ?fn [] =
     Inr (?ig, [\<lparr>Sum = 0, Count = 2\<rparr>, \<lparr>Sum = 4, Count = 4\<rparr>, \<lparr>Sum = 2, Count = 3\<rparr>])"
    using B [THEN conjunct2, THEN conjunct2, THEN conjunct2, THEN conjunct1, THEN mp, OF ro]
    by (simp add: r2 bs)
  moreover have "Reduce example_window 2000 ?fn [] = Inr (example_window, [])"
    using C [THEN conjunct2, THEN conjunct2, THEN conjunct2, THEN conjunct2]
    by (simp add: example_window_def)
  ultimately show ?thesis using wf(1) ival(1) t(1) by simp
qed

lemma history_fn_readonly: "\<forall>b s. fst (history_fn b s) = b"
  by (simp add: history_fn_def split: prod.splits)

theorem Reduce_read_only_witness:
  "Reduce example_window 1600 history_fn (0, 0) = Inr (example_window, (3, 4)) \<and>
   (\<forall>b s. fst (history_fn b s) = b) \<and>
   (\<exists>rw' a. Reduce example_window 1600 history_fn (0, 0) = Inr (rw', a) \<and>
      rw' = example_window \<and> offset rw' = 1 \<and> lastTime rw' = 1000 \<and>
      buckets (win rw') = buckets (win example_window) \<and>
      Reduce rw' 1600 history_fn (0, 0) = Inr (rw', a))"
proof -
  have wf: "wf_window example_window" by (simp add: wf_window_def example_window_def)
  have r1: "spec_range example_window 2 2 = [0, 1]"
    by (simp add: spec_range_def example_window_def upto.simps)
  have "Reduce example_window 1600 history_fn (0, 0) =
          Inr (example_window\<lparr>win := (win example_window)\<lparr>buckets :=
                  fst (fold (visit history_fn) (spec_range example_window 2 2) (buckets (win example_window), (0, 0)))\<rparr>\<rparr>,
                snd (fold (visit history_fn) (spec_range example_window 2 2) (buckets (win example_window), (0, 0))))"
    by (rule Reduce_wf[OF wf]) (simp_all add: example_window_def spec_span_def)
  then have run: "Reduce example_window 1600 history_fn (0, 0) = Inr (example_window, (3, 4))"
    unfolding fold_visit_readonly[OF history_fn_readonly] r1
    by (simp add: example_window_def history_fn_def int64_of_def)
  from Reduce_read_only [OF run] history_fn_readonly run show ?thesis
    by (simp add: example_window_def)
qed

section \<open>The history and the decision\<close>

lemma fold_history_fn:
  "fold (\<lambda>j a. snd (history_fn (bs ! j) a)) js (a0, t0) =
     (a0 + sum_list (map (\<lambda>j. int64_of (Sum (bs ! j))) js),
      t0 + sum_list (map (\<lambda>j. Count (bs ! j)) js))"
  by (induction js arbitrary: a0 t0) (simp_all add: history_fn_def)

lemma history_wf:
  assumes wf: "wf_window (stat b)" and ival: "0 < interval (stat b)" and t: "lastTime (stat b) \<le> now"
    and sp: "sp = spec_span (stat b) now"
    and n: "n = (if sp = 0 \<and> ignoreCurrent (stat b) then rw_size (stat b) - 1 else rw_size (stat b) - sp)"
  shows "history b now =
     Inr (sum_list (map (\<lambda>j. int64_of (Sum (buckets (win (stat b)) ! j))) (spec_range (stat b) sp n)),
          sum_list (map (\<lambda>j. Count (buckets (win (stat b)) ! j)) (spec_range (stat b) sp n)))"
  unfolding history_def Reduce_wf[OF wf ival t sp n] fold_visit_readonly[OF history_fn_readonly]
  by (simp add: fold_history_fn)

lemma spec_range_in_window:
  assumes "wf_window rw" "j \<in> set (spec_range rw sp n)"
  shows "j < length (buckets (win rw))"
proof -
  from assms(1) have sz: "0 < rw_size rw" "int (length (buckets (win rw))) = rw_size rw"
    by (simp_all add: wf_window_def)
  from assms(2) obtain i where "j = nat (((offset rw + sp + 1) mod rw_size rw + i) mod rw_size rw)"
    by (auto simp: spec_range_def)
  moreover have "((offset rw + sp + 1) mod rw_size rw + i) mod rw_size rw < rw_size rw"
    using sz(1) by simp
  ultimately show ?thesis using sz by linarith
qed

lemma spec_span_stale:
  assumes ival: "0 < interval rw" and last: "lastTime rw \<le> t_add"
    and quiet: "rw_size rw * interval rw \<le> now - t_add"
  shows "spec_span rw now = rw_size rw"
proof -
  have "rw_size rw * interval rw \<le> now - lastTime rw" using last quiet by linarith
  then have "rw_size rw * interval rw div interval rw \<le> (now - lastTime rw) div interval rw"
    using ival by (intro zdiv_mono1) simp_all
  then have "rw_size rw \<le> (now - lastTime rw) div interval rw" using ival by simp
  then show ?thesis by (simp add: spec_span_def)
qed

lemma dropRatio_cold: "dropRatio const_k 0 0 = (0 - of_int protection - const_k) / 1"
  "dropRatio const_k 0 0 < 0"
  by (simp_all add: dropRatio_def const_k_def protection_def)

lemma accept_admits:
  assumes "history b now = Inr (accepts, tot)" "dropRatio (gb_k b) accepts tot \<le> 0"
  shows "accept TrueOnProba b now = Inr (None, b)"
  using assms by (simp add: accept_def)

lemma newGoogleBreaker_inv:
  "\<exists>b. newGoogleBreaker r t0 = Inr b \<and> breaker_inv b \<and> lastTime (stat b) = t0 \<and>
       rw_size (stat b) = 40 \<and> interval (stat b) = 250000000 \<and> proba b = r \<and>
       (\<forall>bk\<in>set (buckets (win (stat b))). bk = new_Bucket)"
  by (simp add: newGoogleBreaker_def NewRollingWindow_def const_buckets_def const_window_def
      go_quo_def newWindow_def breaker_inv_def wf_window_def bucket_ok_def new_Bucket_def)

lemma Add_inv:
  assumes wf: "wf_window rw" and ival: "0 < interval rw"
    and t1: "lastTime rw \<le> t_span" and t2: "t_span \<le> now"
    and v: "0 \<le> v" "v \<le> 1"
    and ok: "\<forall>bk\<in>set (buckets (win rw)). bucket_ok bk"
  shows "\<exists>rw'. Add rw t_span now v = Inr rw' \<and> wf_window rw' \<and>
           interval rw' = interval rw \<and> rw_size rw' = rw_size rw \<and>
           ignoreCurrent rw' = ignoreCurrent rw \<and> lastTime rw' \<le> now \<and>
           (\<forall>bk\<in>set (buckets (win rw')). bucket_ok bk)"
proof -
  from wf have sz: "1 \<le> rw_size rw" "wsize (win rw) = rw_size rw"
    "int (length (buckets (win rw))) = rw_size rw" "0 \<le> offset rw" "offset rw < rw_size rw"
    by (simp_all add: wf_window_def)
  define sp where "sp = spec_span rw t_span"
  have span: "span rw t_span = Inr sp"
    using span_wf[OF ival t1] sz(1) by (simp add: sp_def)
  have nn: "0 \<le> sp" using spec_span_bounds(1)[OF ival t1] sz(1) by (simp add: sp_def)
  have okv: "bucket_ok \<lparr>Sum = v, Count = 1\<rparr>" using v by (simp add: bucket_ok_def)
  have okn: "bucket_ok new_Bucket" by (simp add: bucket_ok_def new_Bucket_def)
  show ?thesis
  proof (cases "sp \<le> 0")
    case True
    let ?o = "nat (offset rw)"
    have "?o < length (buckets (win rw))" using sz by linarith
    then have "bucket_ok (buckets (win rw) ! ?o)" using ok by simp
    then have "bucket_ok (Bucket_add (buckets (win rw) ! ?o) v)"
      using v by (simp add: bucket_ok_def Bucket_add_def)
    then have "\<forall>bk\<in>set ((buckets (win rw))[?o := Bucket_add (buckets (win rw) ! ?o) v]). bucket_ok bk"
      using ok by (auto dest!: set_update_subset_insert[THEN subsetD])
    then show ?thesis
      using Add_same_bucket[OF wf span True, of now v] wf t1 t2
      by (simp add: wf_window_def)
  next
    case False
    then have pos: "1 \<le> sp" by simp
    from updateOffset_wf[OF wf ival t1 t2 sp_def pos]
    obtain bs where u: "updateOffset rw t_span now =
           Inr (rw\<lparr>win := (win rw)\<lparr>buckets := bs\<rparr>,
                   offset := (offset rw + sp) mod rw_size rw,
                   lastTime := now - (now - lastTime rw) mod interval rw\<rparr>)"
       "length bs = length (buckets (win rw))"
       "\<forall>p < length bs. bs ! p =
              (if \<exists>i. 0 \<le> i \<and> i < sp \<and> nat ((offset rw + i + 1) mod rw_size rw) = p
               then new_Bucket else buckets (win rw) ! p)"
      by blast
    have "bucket_ok (bs ! p)" if "p < length bs" for p
      using that u(2,3) ok okn by (simp add: all_set_conv_all_nth)
    then have "\<forall>bk\<in>set bs. bucket_ok bk" by (simp add: all_set_conv_all_nth)
    then have "\<forall>bk\<in>set (bs[nat ((offset rw + sp) mod rw_size rw) := \<lparr>Sum = v, Count = 1\<rparr>]). bucket_ok bk"
      using okv by (auto dest!: set_update_subset_insert[THEN subsetD])
    then show ?thesis
      using Add_next_bucket[OF wf ival t1 t2 sp_def pos u, of v] sz u(2) realign(1)[OF ival, of now "lastTime rw"]
      by (simp add: wf_window_def)
  qed
qed

lemma markSuccess_inv:
  assumes "breaker_inv b" "lastTime (stat b) \<le> t_span" "t_span \<le> now"
  shows "\<exists>st. Add (stat b) t_span now 1 = Inr st \<and> markSuccess b t_span now = Inr (b\<lparr>stat := st\<rparr>) \<and>
           breaker_inv (b\<lparr>stat := st\<rparr>) \<and> lastTime st \<le> now \<and>
           interval st = interval (stat b) \<and> rw_size st = rw_size (stat b)"
proof -
  from assms(1) have h: "wf_window (stat b)" "0 < interval (stat b)"
    "\<forall>bk\<in>set (buckets (win (stat b))). bucket_ok bk" "gb_k b = const_k"
    by (simp_all add: breaker_inv_def)
  from Add_inv[OF h(1,2) assms(2,3) _ _ h(3), of 1]
  obtain st where "Add (stat b) t_span now 1 = Inr st" "wf_window st"
    "interval st = interval (stat b)" "lastTime st \<le> now" "\<forall>bk\<in>set (buckets (win st)). bucket_ok bk"
    "rw_size st = rw_size (stat b)"
    by auto
  then show ?thesis using h by (simp add: markSuccess_def breaker_inv_def)
qed

lemma markFailure_inv:
  assumes "breaker_inv b" "lastTime (stat b) \<le> t_span" "t_span \<le> now"
  shows "\<exists>st. Add (stat b) t_span now 0 = Inr st \<and> markFailure b t_span now = Inr (b\<lparr>stat := st\<rparr>) \<and>
           breaker_inv (b\<lparr>stat := st\<rparr>) \<and> lastTime st \<le> now \<and>
           interval st = interval (stat b) \<and> rw_size st = rw_size (stat b)"
proof -
  from assms(1) have h: "wf_window (stat b)" "0 < interval (stat b)"
    "\<forall>bk\<in>set (buckets (win (stat b))). bucket_ok bk" "gb_k b = const_k"
    by (simp_all add: breaker_inv_def)
  from Add_inv[OF h(1,2) assms(2,3) _ _ h(3), of 0]
  obtain st where "Add (stat b) t_span now 0 = Inr st" "wf_window st"
    "interval st = interval (stat b)" "lastTime st \<le> now" "\<forall>bk\<in>set (buckets (win st)). bucket_ok bk"
    "rw_size st = rw_size (stat b)"
    by auto
  then show ?thesis using h by (simp add: markFailure_def breaker_inv_def)
qed

lemma int64_of_bounds:
  assumes "bucket_ok bk"
  shows "0 \<le> int64_of (Sum bk)" "int64_of (Sum bk) \<le> Count bk"
  using assms by (simp_all add: bucket_ok_def int64_of_def floor_le_iff)

lemma history_bounds:
  assumes inv: "breaker_inv b" and t: "lastTime (stat b) \<le> now"
  shows "\<exists>accepts tot. history b now = Inr (accepts, tot) \<and> 0 \<le> accepts \<and> accepts \<le> tot"
proof -
  from inv have h: "wf_window (stat b)" "0 < interval (stat b)"
    "\<forall>bk\<in>set (buckets (win (stat b))). bucket_ok bk"
    by (simp_all add: breaker_inv_def)
  define sp where "sp = spec_span (stat b) now"
  define n where "n = (if sp = 0 \<and> ignoreCurrent (stat b) then rw_size (stat b) - 1 else rw_size (stat b) - sp)"
  let ?js = "spec_range (stat b) sp n"
  let ?bs = "buckets (win (stat b))"
  have ok: "bucket_ok (?bs ! j)" if "j \<in> set ?js" for j
    using spec_range_in_window[OF h(1) that] h(3) by simp
  have "0 \<le> sum_list (map (\<lambda>j. int64_of (Sum (?bs ! j))) ?js)"
    by (rule sum_list_nonneg) (auto dest: ok int64_of_bounds(1))
  moreover have "sum_list (map (\<lambda>j. int64_of (Sum (?bs ! j))) ?js) \<le> sum_list (map (\<lambda>j. Count (?bs ! j)) ?js)"
    by (rule sum_list_mono) (auto dest: ok int64_of_bounds(2))
  ultimately show ?thesis
    using history_wf[OF h(1,2) t sp_def n_def] by simp
qed

lemma history_fresh:
  assumes "wf_window (stat b)" "0 < interval (stat b)" "lastTime (stat b) \<le> now"
    "\<forall>bk\<in>set (buckets (win (stat b))). bk = new_Bucket"
  shows "history b now = Inr (0, 0)"
proof -
  define sp where "sp = spec_span (stat b) now"
  define n where "n = (if sp = 0 \<and> ignoreCurrent (stat b) then rw_size (stat b) - 1 else rw_size (stat b) - sp)"
  have z: "buckets (win (stat b)) ! j = new_Bucket" if "j \<in> set (spec_range (stat b) sp n)" for j
    using spec_range_in_window[OF assms(1) that] assms(4) by simp
  have a: "map (\<lambda>j. int64_of (Sum (buckets (win (stat b)) ! j))) (spec_range (stat b) sp n)
        = map (\<lambda>j. 0) (spec_range (stat b) sp n)"
    by (rule map_cong) (simp_all add: z new_Bucket_def int64_of_def)
  have c: "map (\<lambda>j. Count (buckets (win (stat b)) ! j)) (spec_range (stat b) sp n)
        = map (\<lambda>j. 0) (spec_range (stat b) sp n)"
    by (rule map_cong) (simp_all add: z new_Bucket_def)
  show ?thesis
    unfolding history_wf[OF assms(1,2,3) sp_def n_def] a c by simp
qed

text \<open>
  C7. Take a breaker whose window is well formed with a positive interval, and a clock
  reading \<open>t_add\<close> not before \<open>lastTime\<close>, as the reading of the last \<open>Add\<close> is. Once
  at least \<open>size * interval\<close> has elapsed since \<open>t_add\<close> (10 seconds for 40 buckets of
  250 ms), \<open>span\<close> saturates at \<open>size\<close>, \<open>Reduce\<close> invokes its callback on no bucket
  and returns the captured state as given, \<open>history\<close> returns \<open>(0, 0)\<close>, and \<open>accept\<close>
  admits without consulting the sampler: the stale window counts as an empty one.
\<close>

theorem stale_window_admits:
  assumes wf: "wf_window (stat b)" and ival: "0 < interval (stat b)"
    and last: "lastTime (stat b) \<le> t_add"
    and quiet: "rw_size (stat b) * interval (stat b) \<le> now - t_add"
    and k: "gb_k b = const_k"
  shows "span (stat b) now = Inr (rw_size (stat b)) \<and>
         Reduce (stat b) now fn acc = Inr (stat b, acc) \<and>
         history b now = Inr (0, 0) \<and>
         accept TrueOnProba b now = Inr (None, b)"
proof -
  from wf have sz: "1 \<le> rw_size (stat b)" by (simp add: wf_window_def)
  have "0 \<le> rw_size (stat b) * interval (stat b)" using sz ival by simp
  with last quiet have t: "lastTime (stat b) \<le> now" by linarith
  have sp: "rw_size (stat b) = spec_span (stat b) now"
    using spec_span_stale[OF ival last quiet] by simp
  have n: "0 = (if rw_size (stat b) = 0 \<and> ignoreCurrent (stat b) then rw_size (stat b) - 1
                else rw_size (stat b) - rw_size (stat b))"
    using sz by simp
  have r: "spec_range (stat b) (rw_size (stat b)) 0 = []" by (simp add: spec_range_def)
  have span: "span (stat b) now = Inr (rw_size (stat b))"
    using span_wf[OF ival t] sz sp by simp
  have red: "Reduce (stat b) now fn acc = Inr (stat b, acc)"
    using Reduce_wf[OF wf ival t sp n, of fn acc] by (simp add: r)
  have h: "history b now = Inr (0, 0)"
    using history_wf[OF wf ival t sp n] by (simp add: r)
  have "accept TrueOnProba b now = Inr (None, b)"
    using dropRatio_cold(2) by (intro accept_admits[OF h]) (simp add: k)
  with span red h show ?thesis by simp
qed

theorem stale_window_admits_witness:
  "\<exists>b0 st. newGoogleBreaker () 0 = Inr b0 \<and>
     markFailure b0 300000000 300000000 = Inr (b0\<lparr>stat := st\<rparr>) \<and>
     wf_window st \<and> 0 < interval st \<and> lastTime st \<le> 300000000 \<and>
     rw_size st * interval st \<le> 10300000000 - 300000000 \<and>
     gb_k (b0\<lparr>stat := st\<rparr>) = const_k \<and>
     span st 10300000000 = Inr 40 \<and>
     history (b0\<lparr>stat := st\<rparr>) 10300000000 = Inr (0, 0) \<and>
     accept (\<lambda>p r. (True, r)) (b0\<lparr>stat := st\<rparr>) 10300000000 = Inr (None, b0\<lparr>stat := st\<rparr>)"
proof -
  from newGoogleBreaker_inv[of "()" 0]
  obtain b0 where b0: "newGoogleBreaker () 0 = Inr b0" "breaker_inv b0" "lastTime (stat b0) = 0"
    "rw_size (stat b0) = 40" "interval (stat b0) = 250000000"
    by blast
  from markFailure_inv[OF b0(2), of 300000000 300000000] b0(3)
  obtain st where st: "markFailure b0 300000000 300000000 = Inr (b0\<lparr>stat := st\<rparr>)"
    "breaker_inv (b0\<lparr>stat := st\<rparr>)" "lastTime st \<le> 300000000"
    "interval st = interval (stat b0)" "rw_size st = rw_size (stat b0)"
    by auto
  let ?b = "b0\<lparr>stat := st\<rparr>"
  have wf: "wf_window (stat ?b)" and ival: "0 < interval (stat ?b)" and k: "gb_k ?b = const_k"
    using st(2) by (simp_all add: breaker_inv_def)
  have last: "lastTime (stat ?b) \<le> 300000000" using st(3) by simp
  have quiet: "rw_size (stat ?b) * interval (stat ?b) \<le> 10300000000 - 300000000"
    using st(4,5) b0(4,5) by simp
  note T = stale_window_admits [OF wf ival last quiet k, of undefined "()" "\<lambda>p r. (True, r)"]
  have "span st 10300000000 = Inr 40" using T st(5) b0(4) by simp
  moreover have "history ?b 10300000000 = Inr (0, 0)" using T by simp
  moreover have "accept (\<lambda>p r. (True, r)) ?b 10300000000 = Inr (None, ?b)" using T by simp
  ultimately show ?thesis
    using b0(1) st(1) wf ival last quiet k by (intro exI[of _ b0] exI[of _ st]) simp
qed

text \<open>
  C4. Let \<open>(accepts, tot)\<close> be the history of a breaker with \<open>k = 1.5\<close>, with
  \<open>0 \<le> accepts \<le> tot\<close> as the successes among the attempts are. If \<open>accepts = tot\<close>
  (all successes), or if \<open>tot \<le> protection\<close> (5), the drop ratio
  \<open>((tot - protection) - (k + accepts)) / (tot + 1)\<close> is at most 0 and \<open>accept\<close> returns
  no error and leaves the breaker, sampler included, as it was, whatever the sampler
  would answer. For \<open>tot = 0\<close> the drop ratio is \<open>(0 - protection - k) / 1\<close>, below 0.
\<close>

theorem accept_protection:
  assumes k: "gb_k b = const_k" and h: "history b now = Inr (accepts, tot)"
    and acc: "0 \<le> accepts" "accepts \<le> tot"
    and c: "accepts = tot \<or> tot \<le> protection"
  shows "dropRatio const_k accepts tot \<le> 0 \<and>
         accept TrueOnProba b now = Inr (None, b) \<and>
         (tot = 0 \<longrightarrow>
            dropRatio const_k accepts tot = (0 - of_int protection - const_k) / 1 \<and>
            dropRatio const_k accepts tot < 0)"
proof -
  have den: "(0 :: rat) < of_int (tot + 1)" using acc by simp
  have "(of_int (tot - protection) :: rat) - (const_k + of_int accepts) \<le> 0"
  proof -
    from c have "tot - protection \<le> accepts" using acc by (auto simp: protection_def)
    then have "(of_int (tot - protection) :: rat) \<le> of_int accepts" by (simp only: of_int_le_iff)
    then show ?thesis by (simp add: const_k_def)
  qed
  then have d: "dropRatio const_k accepts tot \<le> 0"
    using den by (simp add: dropRatio_def Let_def divide_nonpos_pos del: of_int_add of_int_diff)
  have a: "accept TrueOnProba b now = Inr (None, b)"
    using d by (intro accept_admits[OF h]) (simp add: k)
  have "dropRatio const_k accepts tot = (0 - of_int protection - const_k) / 1 \<and>
            dropRatio const_k accepts tot < 0" if "tot = 0"
  proof -
    from that acc have "accepts = 0" by simp
    with that show ?thesis using dropRatio_cold by simp
  qed
  with d a show ?thesis by blast
qed

theorem accept_protection_witness:
  "(\<exists>b0. newGoogleBreaker () 0 = Inr b0 \<and> gb_k b0 = const_k \<and>
      history b0 5 = Inr (0, 0) \<and>
      dropRatio const_k 0 0 = - 13 / 2 \<and>
      accept (\<lambda>p r. (True, r)) b0 5 = Inr (None, b0)) \<and>
   history \<lparr>gb_k = const_k, stat = example_window, proba = ()\<rparr> 1600 = Inr (3, 4) \<and>
   dropRatio const_k 3 4 = - 11 / 10 \<and>
   accept (\<lambda>p r. (True, r)) \<lparr>gb_k = const_k, stat = example_window, proba = ()\<rparr> 1600 =
     Inr (None, \<lparr>gb_k = const_k, stat = example_window, proba = ()\<rparr>) \<and>
   history \<lparr>gb_k = const_k, stat = example_successes, proba = ()\<rparr> 1350 = Inr (8, 8) \<and>
   accept (\<lambda>p r. (True, r)) \<lparr>gb_k = const_k, stat = example_successes, proba = ()\<rparr> 1350 =
     Inr (None, \<lparr>gb_k = const_k, stat = example_successes, proba = ()\<rparr>)"
proof -
  from newGoogleBreaker_inv[of "()" 0]
  obtain b0 where b0: "newGoogleBreaker () 0 = Inr b0" "breaker_inv b0" "lastTime (stat b0) = 0"
    "\<forall>bk\<in>set (buckets (win (stat b0))). bk = new_Bucket"
    by blast
  have k0: "gb_k b0 = const_k" using b0(2) by (simp add: breaker_inv_def)
  have h0: "history b0 5 = Inr (0, 0)"
    using b0 by (intro history_fresh) (simp_all add: breaker_inv_def)
  note A = accept_protection [OF k0 h0, of "\<lambda>p r. (True, r)"]
  let ?b = "\<lparr>gb_k = const_k, stat = example_window, proba = ()\<rparr>"
  have wf: "wf_window (stat ?b)" by (simp add: wf_window_def example_window_def)
  have r1: "spec_range example_window 2 2 = [0, 1]"
    by (simp add: spec_range_def example_window_def upto.simps)
  let ?c = "\<lparr>gb_k = const_k, stat = example_successes, proba = ()\<rparr>"
  have wfc: "wf_window (stat ?c)" by (simp add: wf_window_def example_successes_def)
  have r2: "spec_range example_successes 1 3 = [3, 0, 1]"
    by (simp add: spec_range_def example_successes_def upto.simps)
  have h1: "history ?b 1600 = Inr (3, 4)"
    by (subst history_wf[OF wf, of 1600 2 2])
       (simp_all add: r1, simp_all add: example_window_def spec_span_def int64_of_def)
  have h2: "history ?c 1350 = Inr (8, 8)"
    by (subst history_wf[OF wfc, of 1350 1 3])
       (simp_all add: r2, simp_all add: example_successes_def spec_span_def int64_of_def)
  have kb: "gb_k ?b = const_k" by simp
  note B = accept_protection [OF kb h1, of "\<lambda>p r. (True, r)"]
  have kc: "gb_k ?c = const_k" by simp
  note C = accept_protection [OF kc h2, of "\<lambda>p r. (True, r)"]
  have d: "dropRatio const_k 0 0 = - 13 / 2" "dropRatio const_k 3 4 = - 11 / 10"
    by (simp_all add: dropRatio_def const_k_def protection_def)
  have "accept (\<lambda>p r. (True, r)) b0 5 = Inr (None, b0)" using A by simp
  moreover have "accept (\<lambda>p r. (True, r)) ?b 1600 = Inr (None, ?b)"
    using B by (simp add: protection_def)
  moreover have "accept (\<lambda>p r. (True, r)) ?c 1350 = Inr (None, ?c)"
    using C by simp
  ultimately show ?thesis using b0(1) k0 h0 h1 h2 d by auto
qed

section \<open>The error window\<close>

lemma ew_inv_cases:
  assumes "ew_inv ew"
  obtains r0 r1 r2 r3 r4 where "reasons ew = [r0, r1, r2, r3, r4]"
    "index ew = 0 \<or> index ew = 1 \<or> index ew = 2 \<or> index ew = 3 \<or> index ew = 4"
    "count ew = 0 \<or> count ew = 1 \<or> count ew = 2 \<or> count ew = 3 \<or> count ew = 4 \<or> count ew = 5"
proof -
  from assms have "length (reasons ew) = Suc (Suc (Suc (Suc (Suc 0))))" by (simp add: ew_inv_def)
  then obtain r0 r1 r2 r3 r4 where "reasons ew = [r0, r1, r2, r3, r4]"
    by (auto simp: length_Suc_conv)
  moreover from assms have "index ew = 0 \<or> index ew = 1 \<or> index ew = 2 \<or> index ew = 3 \<or> index ew = 4"
    unfolding ew_inv_def by arith
  moreover from assms have "count ew = 0 \<or> count ew = 1 \<or> count ew = 2 \<or> count ew = 3 \<or> count ew = 4 \<or> count ew = 5"
    unfolding ew_inv_def by arith
  ultimately show ?thesis using that by blast
qed

lemmas ew_eval = stored_def errorWindow_add_def numHistoryReasons_def MinInt_def go_rem_def
  go_quo_def upto.simps entry_def ew_inv_def

lemma errorWindow_add_step:
  assumes "ew_inv ew"
  shows "\<exists>ew'. errorWindow_add ew ts r = Inr ew' \<and> ew_inv ew' \<and>
           stored ew' = take 5 (entry (ts, r) # stored ew) \<and>
           reasons ew' = (reasons ew)[nat (index ew) := entry (ts, r)] \<and>
           index ew' = (index ew + 1) mod 5 \<and> count ew' = min (count ew + 1) 5"
proof -
  from assms obtain r0 r1 r2 r3 r4 where r: "reasons ew = [r0, r1, r2, r3, r4]"
    and i: "index ew = 0 \<or> index ew = 1 \<or> index ew = 2 \<or> index ew = 3 \<or> index ew = 4"
    and c: "count ew = 0 \<or> count ew = 1 \<or> count ew = 2 \<or> count ew = 3 \<or> count ew = 4 \<or> count ew = 5"
    by (rule ew_inv_cases)
  from i c show ?thesis
    by (elim disjE) (simp_all add: ew_eval r)
qed


lemma String_loop_stored:
  assumes "ew_inv ew"
  shows "String_loop ew (index ew - 1) [] = Inr (stored ew)"
proof -
  from assms obtain r0 r1 r2 r3 r4 where r: "reasons ew = [r0, r1, r2, r3, r4]"
    and i: "index ew = 0 \<or> index ew = 1 \<or> index ew = 2 \<or> index ew = 3 \<or> index ew = 4"
    and c: "count ew = 0 \<or> count ew = 1 \<or> count ew = 2 \<or> count ew = 3 \<or> count ew = 4 \<or> count ew = 5"
    by (rule ew_inv_cases)
  from i c show ?thesis
    by (elim disjE) (simp_all add: ew_eval r String_loop.simps)
qed

lemma errorWindow_String_stored:
  assumes "ew_inv ew"
  shows "errorWindow_String ew = Inr (Join (stored ew) [CHR 0x0A])"
  by (simp add: errorWindow_String_def String_loop_stored[OF assms])

lemma take_append_take: "take n (xs @ take n ys) = take n (xs @ ys)"
  by (induction xs arbitrary: n) (simp_all add: take_Cons split: nat.splits)

lemma add_all_stored:
  assumes "ew_inv ew"
  shows "\<exists>ew'. add_all ew xs = Inr ew' \<and> ew_inv ew' \<and>
           stored ew' = take 5 (rev (map entry xs) @ stored ew) \<and>
           index ew' = (index ew + int (length xs)) mod 5 \<and>
           count ew' = min (count ew + int (length xs)) 5"
  using assms
proof (induction xs arbitrary: ew)
  case Nil
  then have "length (stored ew) \<le> 5" "index ew mod 5 = index ew" "count ew \<le> 5"
    unfolding stored_def ew_inv_def by (simp_all, linarith)
  with Nil show ?case by simp
next
  case (Cons x xs)
  from errorWindow_add_step[OF Cons.prems, of "fst x" "snd x"]
  obtain ew1 where ew1: "errorWindow_add ew (fst x) (snd x) = Inr ew1" "ew_inv ew1"
    "stored ew1 = take 5 (entry x # stored ew)"
    "index ew1 = (index ew + 1) mod 5" "count ew1 = min (count ew + 1) 5"
    by auto
  from Cons.IH[OF ew1(2)]
  obtain ew' where ew': "add_all ew1 xs = Inr ew'" "ew_inv ew'"
    "stored ew' = take 5 (rev (map entry xs) @ stored ew1)"
    "index ew' = (index ew1 + int (length xs)) mod 5"
    "count ew' = min (count ew1 + int (length xs)) 5"
    by blast
  have "stored ew' = take 5 (rev (map entry (x # xs)) @ stored ew)"
    unfolding ew'(3) ew1(3) take_append_take by simp
  moreover have "index ew' = (index ew + int (length (x # xs))) mod 5"
    unfolding ew'(4) ew1(4) mod_add_left_eq by (simp add: algebra_simps)
  moreover have "count ew' = min (count ew + int (length (x # xs))) 5"
    unfolding ew'(5) ew1(5) by simp
  ultimately show ?case using ew1(1) ew'(1,2) by simp
qed

lemma new_errorWindow_inv: "ew_inv new_errorWindow" "stored new_errorWindow = []"
  by (simp_all add: ew_inv_def new_errorWindow_def stored_def numHistoryReasons_def)

text \<open>
  C10. After any sequence of \<open>add\<close> calls on a new \<open>errorWindow\<close>, \<open>count\<close> is the
  number of calls capped at 5, so \<open>count \<le> 5\<close>; \<open>index\<close> is the number of calls modulo
  5 and is the slot the next \<open>add\<close> writes; from the fifth call on that slot holds the
  oldest stored reason, the one added five calls ago, so the sixth and later reasons
  overwrite the oldest first; and \<open>String\<close> joins, with newlines, exactly \<open>count\<close>
  entries: the last five added, the newest first.
\<close>

theorem errorWindow_log:
  "\<exists>ew. add_all new_errorWindow xs = Inr ew \<and>
     count ew = min (int (length xs)) 5 \<and> count ew \<le> 5 \<and>
     index ew = int (length xs) mod 5 \<and>
     (\<forall>ts r. \<exists>ew'. errorWindow_add ew ts r = Inr ew' \<and>
        reasons ew' = (reasons ew)[nat (index ew) := ts @ '' '' @ r]) \<and>
     (5 \<le> length xs \<longrightarrow> reasons ew ! nat (index ew) = entry (xs ! (length xs - 5))) \<and>
     length (take 5 (rev (map entry xs))) = nat (count ew) \<and>
     errorWindow_String ew = Inr (Join (take 5 (rev (map entry xs))) [CHR 0x0A])"
proof -
  have z: "index new_errorWindow = 0" "count new_errorWindow = 0"
    by (simp_all add: new_errorWindow_def)
  from add_all_stored[OF new_errorWindow_inv(1), of xs]
  obtain ew where ew: "add_all new_errorWindow xs = Inr ew" "ew_inv ew"
    "stored ew = take 5 (rev (map entry xs))"
    "index ew = int (length xs) mod 5" "count ew = min (int (length xs)) 5"
    unfolding new_errorWindow_inv(2) z by auto
  have next_slot: "\<exists>ew'. errorWindow_add ew ts r = Inr ew' \<and>
        reasons ew' = (reasons ew)[nat (index ew) := ts @ '' '' @ r]" for ts r
    using errorWindow_add_step[OF ew(2), of ts r] by (auto simp: entry_def)
  have oldest: "reasons ew ! nat (index ew) = entry (xs ! (length xs - 5))" if "5 \<le> length xs"
  proof -
    from that ew(5) have c: "count ew = 5" by simp
    have "stored ew ! 4 = reasons ew ! nat ((index ew - 1 - 4) mod 5)"
      by (simp add: stored_def c upto.simps)
    also have "(index ew - 1 - 4) mod 5 = index ew"
      using ew(2) by (simp add: ew_inv_def)
    finally have "reasons ew ! nat (index ew) = take 5 (rev (map entry xs)) ! 4"
      using ew(3) by simp
    also have "\<dots> = entry (xs ! (length xs - 5))"
      using that by (simp add: rev_nth)
    finally show ?thesis .
  qed
  have len: "length (take 5 (rev (map entry xs))) = nat (count ew)"
    unfolding ew(5) by (simp add: min_def)
  have str: "errorWindow_String ew = Inr (Join (take 5 (rev (map entry xs))) [CHR 0x0A])"
    using errorWindow_String_stored[OF ew(2)] ew(3) by simp
  from ew(1,4,5) next_slot oldest len str show ?thesis
    by (intro exI[of _ ew]) simp
qed


theorem errorWindow_log_witness:
  "\<exists>ew. add_all new_errorWindow example_reasons = Inr ew \<and>
     5 \<le> length example_reasons \<and> count ew = 5 \<and> index ew = 2 \<and>
     reasons ew ! 2 = ''10:00:03 c'' \<and>
     errorWindow_String ew =
       Inr (''10:00:07 g'' @ [CHR 0x0A] @ ''10:00:06 f'' @ [CHR 0x0A] @ ''10:00:05 e'' @
            [CHR 0x0A] @ ''10:00:04 d'' @ [CHR 0x0A] @ ''10:00:03 c'')"
proof -
  have len: "length example_reasons = 7" by (simp add: example_reasons_def)
  from errorWindow_log [of example_reasons]
  obtain ew where ew: "add_all new_errorWindow example_reasons = Inr ew"
    "count ew = min (int (length example_reasons)) 5"
    "index ew = int (length example_reasons) mod 5"
    "5 \<le> length example_reasons \<longrightarrow>
       reasons ew ! nat (index ew) = entry (example_reasons ! (length example_reasons - 5))"
    "errorWindow_String ew = Inr (Join (take 5 (rev (map entry example_reasons))) [CHR 0x0A])"
    by blast
  have "count ew = 5" "index ew = 2" using ew(2,3) len by simp_all
  moreover have "reasons ew ! 2 = ''10:00:03 c''"
    using ew(4) len \<open>index ew = 2\<close> by (simp add: example_reasons_def entry_def)
  moreover have "errorWindow_String ew =
       Inr (''10:00:07 g'' @ [CHR 0x0A] @ ''10:00:06 f'' @ [CHR 0x0A] @ ''10:00:05 e'' @
            [CHR 0x0A] @ ''10:00:04 d'' @ [CHR 0x0A] @ ''10:00:03 c'')"
    unfolding ew(5) by (simp add: example_reasons_def entry_def)
  ultimately show ?thesis using ew(1) len by (intro exI[of _ ew]) simp
qed

section \<open>Guarded requests\<close>

lemma list_update_as_map:
  "k < length xs \<Longrightarrow> xs[k := x] = map (\<lambda>p. if p = k then x else xs ! p) [0..<length xs]"
  by (rule nth_equalityI) (simp_all add: nth_list_update)

lemma Add_after_sample:
  assumes wf: "wf_window rw" and ival: "0 < interval rw"
    and t1: "lastTime rw \<le> t_span" and t2: "t_span \<le> now"
  shows "Add rw t_span now v = Inr (after_sample rw t_span now v)"
proof -
  from wf have sz: "1 \<le> rw_size rw" "wsize (win rw) = rw_size rw"
    "int (length (buckets (win rw))) = rw_size rw" "0 \<le> offset rw" "offset rw < rw_size rw"
    by (simp_all add: wf_window_def)
  define sp where "sp = spec_span rw t_span"
  have span: "span rw t_span = Inr sp"
    using span_wf[OF ival t1] sz(1) by (simp add: sp_def)
  have nn: "0 \<le> sp" using spec_span_bounds(1)[OF ival t1] sz(1) by (simp add: sp_def)
  let ?old = "buckets (win rw)"
  show ?thesis
  proof (cases "sp \<le> 0")
    case True
    with nn have z: "sp = 0" by simp
    have o: "nat (offset rw) < length ?old" using sz by linarith
    have m: "offset rw mod rw_size rw = offset rw" using sz by simp
    have "after_sample rw t_span now v =
        rw\<lparr>win := (win rw)\<lparr>buckets := ?old[nat (offset rw) := Bucket_add (?old ! nat (offset rw)) v]\<rparr>\<rparr>"
      unfolding after_sample_def list_update_as_map[OF o]
      using z m by (simp add: sp_def[symmetric] Let_def reset_slots_def Bucket_add_def)
    then show ?thesis using Add_same_bucket[OF wf span True, of now v] by simp
  next
    case False
    then have pos: "1 \<le> sp" by simp
    from updateOffset_wf[OF wf ival t1 t2 sp_def pos]
    obtain bs where u: "updateOffset rw t_span now =
           Inr (rw\<lparr>win := (win rw)\<lparr>buckets := bs\<rparr>,
                   offset := (offset rw + sp) mod rw_size rw,
                   lastTime := now - (now - lastTime rw) mod interval rw\<rparr>)"
       "length bs = length (buckets (win rw))"
       "\<forall>p < length bs. bs ! p =
              (if \<exists>i. 0 \<le> i \<and> i < sp \<and> nat ((offset rw + i + 1) mod rw_size rw) = p
               then new_Bucket else buckets (win rw) ! p)"
      by blast
    let ?cur = "nat ((offset rw + sp) mod rw_size rw)"
    have mem: "p \<in> set (reset_slots rw sp) \<longleftrightarrow>
        (\<exists>i. 0 \<le> i \<and> i < sp \<and> nat ((offset rw + i + 1) mod rw_size rw) = p)" for p
      by (auto simp: reset_slots_def)
    have "bs[?cur := \<lparr>Sum = v, Count = 1\<rparr>] =
        map (\<lambda>p. if p = ?cur then \<lparr>Sum = v, Count = 1\<rparr>
                  else if p \<in> set (reset_slots rw sp) then \<lparr>Sum = 0, Count = 0\<rparr>
                  else ?old ! p) [0..<length ?old]"
      using u(2,3) by (intro nth_equalityI) (auto simp: nth_list_update mem new_Bucket_def)
    then have "after_sample rw t_span now v =
        rw\<lparr>win := (win rw)\<lparr>buckets := bs[?cur := \<lparr>Sum = v, Count = 1\<rparr>]\<rparr>,
           offset := (offset rw + sp) mod rw_size rw,
           lastTime := now - (now - lastTime rw) mod interval rw\<rparr>"
      unfolding after_sample_def using pos
      by (simp add: sp_def[symmetric] Let_def)
    then show ?thesis using Add_next_bucket[OF wf ival t1 t2 sp_def pos u, of v] by simp
  qed
qed

lemma after_sample_current:
  assumes wf: "wf_window rw"
  shows "nat (offset (after_sample rw t_span now v)) < length (buckets (win (after_sample rw t_span now v)))"
    and "buckets (win (after_sample rw t_span now v)) ! nat (offset (after_sample rw t_span now v)) =
      (if spec_span rw t_span = 0
       then \<lparr>Sum = Sum (buckets (win rw) ! nat (offset rw)) + v,
             Count = Count (buckets (win rw) ! nat (offset rw)) + 1\<rparr>
       else \<lparr>Sum = v, Count = 1\<rparr>)"
proof -
  from wf have sz: "1 \<le> rw_size rw" "int (length (buckets (win rw))) = rw_size rw"
    "0 \<le> offset rw" "offset rw < rw_size rw"
    by (simp_all add: wf_window_def)
  let ?cur = "nat ((offset rw + spec_span rw t_span) mod rw_size rw)"
  have "(offset rw + spec_span rw t_span) mod rw_size rw < rw_size rw" using sz by simp
  then have lt: "?cur < length (buckets (win rw))" using sz by linarith
  show "nat (offset (after_sample rw t_span now v)) < length (buckets (win (after_sample rw t_span now v)))"
    using lt by (simp add: after_sample_def Let_def)
  have m: "offset rw mod rw_size rw = offset rw" using sz by simp
  show "buckets (win (after_sample rw t_span now v)) ! nat (offset (after_sample rw t_span now v)) =
      (if spec_span rw t_span = 0
       then \<lparr>Sum = Sum (buckets (win rw) ! nat (offset rw)) + v,
             Count = Count (buckets (win rw) ! nat (offset rw)) + 1\<rparr>
       else \<lparr>Sum = v, Count = 1\<rparr>)"
  proof (cases "spec_span rw t_span = 0")
    case True
    with lt m have "nat (offset rw) < length (buckets (win rw))" by simp
    with True m show ?thesis by (simp add: after_sample_def Let_def)
  next
    case False
    with lt show ?thesis by (simp add: after_sample_def Let_def)
  qed
qed

lemma markSuccess_sample:
  assumes "breaker_inv b" "lastTime (stat b) \<le> t_span" "t_span \<le> now"
  shows "markSuccess b t_span now = Inr (b\<lparr>stat := after_sample (stat b) t_span now 1\<rparr>)"
  using assms by (simp add: markSuccess_def breaker_inv_def Add_after_sample)

lemma markFailure_sample:
  assumes "breaker_inv b" "lastTime (stat b) \<le> t_span" "t_span \<le> now"
  shows "markFailure b t_span now = Inr (b\<lparr>stat := after_sample (stat b) t_span now 0\<rparr>)"
  using assms by (simp add: markFailure_def breaker_inv_def Add_after_sample)


lemma accept_result:
  assumes "accept TrueOnProba b t_acc = Inr (e, b1)"
  shows "stat b1 = stat b \<and> gb_k b1 = gb_k b \<and> (e = None \<or> e = Some ErrServiceUnavailable)"
  using assms by (auto simp: accept_def split: sum.splits prod.splits if_splits bool.splits)

lemma breaker_inv_stat:
  "stat b1 = stat b \<Longrightarrow> gb_k b1 = gb_k b \<Longrightarrow> breaker_inv b \<Longrightarrow> breaker_inv b1"
  by (simp add: breaker_inv_def)

lemma example_breaker_inv: "breaker_inv example_breaker"
  by (simp add: example_breaker_def breaker_inv_def wf_window_def example_window_def bucket_ok_def)

lemma example_breaker_history: "history example_breaker 1600 = Inr (3, 4)"
proof -
  have wf: "wf_window (stat example_breaker)"
    using example_breaker_inv by (simp add: breaker_inv_def)
  have r: "spec_range (stat example_breaker) 2 2 = [0, 1]"
    by (simp add: spec_range_def example_breaker_def example_window_def upto.simps)
  show ?thesis
    by (subst history_wf[OF wf, of 1600 2 2])
       (simp_all add: r, simp_all add: example_breaker_def example_window_def spec_span_def int64_of_def)
qed

lemma example_breaker_accept:
  "accept (\<lambda>p r. (True, r)) example_breaker 1600 = Inr (None, example_breaker)"
  by (rule accept_admits[OF example_breaker_history])
     (simp add: example_breaker_def dropRatio_def const_k_def protection_def)

lemma example_tripped_inv: "breaker_inv example_tripped"
  by (simp add: example_tripped_def breaker_inv_def wf_window_def example_failures_def bucket_ok_def)

lemma example_tripped_history: "history example_tripped 1600 = Inr (0, 150)"
proof -
  have wf: "wf_window (stat example_tripped)"
    using example_tripped_inv by (simp add: breaker_inv_def)
  have r: "spec_range (stat example_tripped) 2 2 = [0, 1]"
    by (simp add: spec_range_def example_tripped_def example_failures_def upto.simps)
  show ?thesis
    by (subst history_wf[OF wf, of 1600 2 2])
       (simp_all add: r, simp_all add: example_tripped_def example_failures_def spec_span_def int64_of_def)
qed

lemma example_tripped_accept:
  "accept (\<lambda>p r. (True, r)) example_tripped 1600 = Inr (Some ErrServiceUnavailable, example_tripped)"
  by (simp add: accept_def example_tripped_history)
     (simp add: example_tripped_def dropRatio_def const_k_def protection_def)

lemma example_breaker_history_early: "history example_breaker 1100 = Inr (7, 10)"
proof -
  have wf: "wf_window (stat example_breaker)"
    using example_breaker_inv by (simp add: breaker_inv_def)
  have r: "spec_range (stat example_breaker) 0 4 = [2, 3, 0, 1]"
    by (simp add: spec_range_def example_breaker_def example_window_def upto.simps)
  show ?thesis
    by (subst history_wf[OF wf, of 1100 0 4])
       (simp_all add: r, simp_all add: example_breaker_def example_window_def spec_span_def int64_of_def)
qed

lemma example_breaker_accept_early:
  "accept (\<lambda>p r. (True, r)) example_breaker 1100 = Inr (None, example_breaker)"
  by (rule accept_admits[OF example_breaker_history_early])
     (simp add: example_breaker_def dropRatio_def const_k_def protection_def)

lemma example_window_samples:
  "after_sample example_window 1600 1610 0 =
     example_window\<lparr>win := \<lparr>buckets = [\<lparr>Sum = 2, Count = 3\<rparr>, \<lparr>Sum = 1, Count = 1\<rparr>,
                       \<lparr>Sum = 0, Count = 0\<rparr>, \<lparr>Sum = 0, Count = 1\<rparr>], wsize = 4\<rparr>,
                    offset := 3, lastTime := 1500\<rparr>"
  "after_sample example_window 1600 1610 1 =
     example_window\<lparr>win := \<lparr>buckets = [\<lparr>Sum = 2, Count = 3\<rparr>, \<lparr>Sum = 1, Count = 1\<rparr>,
                       \<lparr>Sum = 0, Count = 0\<rparr>, \<lparr>Sum = 1, Count = 1\<rparr>], wsize = 4\<rparr>,
                    offset := 3, lastTime := 1500\<rparr>"
  "after_sample example_window 1100 1110 1 =
     example_window\<lparr>win := \<lparr>buckets = [\<lparr>Sum = 2, Count = 3\<rparr>, \<lparr>Sum = 2, Count = 2\<rparr>,
                       \<lparr>Sum = 0, Count = 2\<rparr>, \<lparr>Sum = 4, Count = 4\<rparr>], wsize = 4\<rparr>\<rparr>"
  by (simp_all add: after_sample_def spec_span_def example_window_def reset_slots_def upto.simps Let_def)

lemma example_failures_sample:
  "after_sample example_failures 1600 1610 0 =
     example_failures\<lparr>win := \<lparr>buckets = [\<lparr>Sum = 0, Count = 100\<rparr>, \<lparr>Sum = 0, Count = 50\<rparr>,
                       \<lparr>Sum = 0, Count = 0\<rparr>, \<lparr>Sum = 0, Count = 1\<rparr>], wsize = 4\<rparr>,
                    offset := 3, lastTime := 1500\<rparr>"
  by (simp add: after_sample_def spec_span_def example_failures_def reset_slots_def upto.simps Let_def)

text \<open>
  C5. Take a breaker that satisfies its invariant, with a monotonic clock, and a call of
  \<open>doReq\<close> that \<open>accept\<close> admits. \<open>doReq\<close> invokes \<open>req\<close> once and, when it returns
  \<open>err\<close>, \<open>acceptable\<close> once on \<open>err\<close>; it returns exactly \<open>err\<close>; the fallback is not
  invoked, as the captured state comes back from \<open>req\<close> and \<open>acceptable\<close> alone. The
  window it leaves is the window of the admitted breaker after exactly one sample:
  1 when \<open>acceptable err\<close> is true, 0 when it is false, and 0 when \<open>req\<close> or
  \<open>acceptable\<close> panics, in which case the panic goes on to the caller. One sample \<open>v\<close>
  means: in the bucket at the current offset the count is one more than before and
  the sum is \<open>v\<close> more when no interval has elapsed, and the bucket is
  \<open>(v, 1)\<close> when the window has moved on.
\<close>

theorem doReq_admitted:
  assumes inv: "breaker_inv b" and t1: "lastTime (stat b) \<le> t_span" and t2: "t_span \<le> now"
    and adm: "accept TrueOnProba b t_acc = Inr (None, b1)"
  shows "doReq TrueOnProba b req fallback acceptable env t_acc t_span now =
      (case req env of
         (Returns err, env1) \<Rightarrow>
           (case acceptable err env1 of
              (Returns ok, env2) \<Rightarrow>
                Inr (Returns err,
                     b1\<lparr>stat := after_sample (stat b1) t_span now (if ok then 1 else 0)\<rparr>, env2)
            | (Panics v, env2) \<Rightarrow>
                Inr (Panics v, b1\<lparr>stat := after_sample (stat b1) t_span now 0\<rparr>, env2))
       | (Panics v, env1) \<Rightarrow>
           Inr (Panics v, b1\<lparr>stat := after_sample (stat b1) t_span now 0\<rparr>, env1)) \<and>
    stat b1 = stat b \<and>
    (\<forall>v. nat (offset (after_sample (stat b1) t_span now v))
            < length (buckets (win (after_sample (stat b1) t_span now v))) \<and>
         buckets (win (after_sample (stat b1) t_span now v)) !
             nat (offset (after_sample (stat b1) t_span now v)) =
           (if spec_span (stat b1) t_span = 0
            then \<lparr>Sum = Sum (buckets (win (stat b1)) ! nat (offset (stat b1))) + v,
                  Count = Count (buckets (win (stat b1)) ! nat (offset (stat b1))) + 1\<rparr>
            else \<lparr>Sum = v, Count = 1\<rparr>))"
proof -
  from accept_result[OF adm] have s: "stat b1 = stat b" "gb_k b1 = gb_k b" by simp_all
  have inv1: "breaker_inv b1" using breaker_inv_stat[OF s inv] .
  have t1': "lastTime (stat b1) \<le> t_span" using t1 s by simp
  note ms = markSuccess_sample[OF inv1 t1' t2] and mf = markFailure_sample[OF inv1 t1' t2]
  have wf1: "wf_window (stat b1)" using inv1 by (simp add: breaker_inv_def)
  have run: "doReq TrueOnProba b req fallback acceptable env t_acc t_span now =
      (case req env of
         (Returns err, env1) \<Rightarrow>
           (case acceptable err env1 of
              (Returns ok, env2) \<Rightarrow>
                Inr (Returns err,
                     b1\<lparr>stat := after_sample (stat b1) t_span now (if ok then 1 else 0)\<rparr>, env2)
            | (Panics v, env2) \<Rightarrow>
                Inr (Panics v, b1\<lparr>stat := after_sample (stat b1) t_span now 0\<rparr>, env2))
       | (Panics v, env1) \<Rightarrow>
           Inr (Panics v, b1\<lparr>stat := after_sample (stat b1) t_span now 0\<rparr>, env1))"
    by (simp add: doReq_def adm ms mf split: prod.splits outcome.splits)
  show ?thesis
    using run s(1) after_sample_current[OF wf1, of t_span now] by blast
qed

theorem doReq_admitted_witness:
  "breaker_inv example_breaker \<and> lastTime (stat example_breaker) \<le> 1600 \<and> (1600 :: int) \<le> 1610 \<and>
   accept (\<lambda>p r. (True, r)) example_breaker 1600 = Inr (None, example_breaker) \<and>
   doReq (\<lambda>p r. (True, r)) example_breaker
       (\<lambda>log. (Returns (Some (Err ''timeout'')), log @ [''req'']))
       (Some (\<lambda>e log. (Returns None, log @ [''fallback''])))
       (\<lambda>e log. (Returns (defaultAcceptable e), log @ [''acceptable''])) [] 1600 1600 1610 =
     Inr (Returns (Some (Err ''timeout'')),
          example_breaker\<lparr>stat := example_window\<lparr>win :=
             \<lparr>buckets = [\<lparr>Sum = 2, Count = 3\<rparr>, \<lparr>Sum = 1, Count = 1\<rparr>,
                         \<lparr>Sum = 0, Count = 0\<rparr>, \<lparr>Sum = 0, Count = 1\<rparr>], wsize = 4\<rparr>,
             offset := 3, lastTime := 1500\<rparr>\<rparr>,
          [''req'', ''acceptable'']) \<and>
   doReq (\<lambda>p r. (True, r)) example_breaker
       (\<lambda>log. (Returns (Some (Err ''not found'')), log @ [''req'']))
       (Some (\<lambda>e log. (Returns None, log @ [''fallback''])))
       (\<lambda>e log. (Returns True, log @ [''acceptable''])) [] 1600 1600 1610 =
     Inr (Returns (Some (Err ''not found'')),
          example_breaker\<lparr>stat := example_window\<lparr>win :=
             \<lparr>buckets = [\<lparr>Sum = 2, Count = 3\<rparr>, \<lparr>Sum = 1, Count = 1\<rparr>,
                         \<lparr>Sum = 0, Count = 0\<rparr>, \<lparr>Sum = 1, Count = 1\<rparr>], wsize = 4\<rparr>,
             offset := 3, lastTime := 1500\<rparr>\<rparr>,
          [''req'', ''acceptable'']) \<and>
   doReq (\<lambda>p r. (True, r)) example_breaker
       (\<lambda>log. (Panics ''boom'', log @ [''req'']))
       (Some (\<lambda>e log. (Returns None, log @ [''fallback''])))
       (\<lambda>e log. (Returns (defaultAcceptable e), log @ [''acceptable''])) [] 1600 1600 1610 =
     Inr (Panics ''boom'',
          example_breaker\<lparr>stat := example_window\<lparr>win :=
             \<lparr>buckets = [\<lparr>Sum = 2, Count = 3\<rparr>, \<lparr>Sum = 1, Count = 1\<rparr>,
                         \<lparr>Sum = 0, Count = 0\<rparr>, \<lparr>Sum = 0, Count = 1\<rparr>], wsize = 4\<rparr>,
             offset := 3, lastTime := 1500\<rparr>\<rparr>,
          [''req'']) \<and>
   accept (\<lambda>p r. (True, r)) example_breaker 1100 = Inr (None, example_breaker) \<and>
   doReq (\<lambda>p r. (True, r)) example_breaker
       (\<lambda>log. (Returns None, log @ [''req'']))
       None
       (\<lambda>e log. (Returns (defaultAcceptable e), log @ [''acceptable''])) [] 1100 1100 1110 =
     Inr (Returns None,
          example_breaker\<lparr>stat := example_window\<lparr>win :=
             \<lparr>buckets = [\<lparr>Sum = 2, Count = 3\<rparr>, \<lparr>Sum = 2, Count = 2\<rparr>,
                         \<lparr>Sum = 0, Count = 2\<rparr>, \<lparr>Sum = 4, Count = 4\<rparr>], wsize = 4\<rparr>\<rparr>\<rparr>,
          [''req'', ''acceptable''])"
proof -
  have t1: "lastTime (stat example_breaker) \<le> 1600" "lastTime (stat example_breaker) \<le> 1100"
    by (simp_all add: example_breaker_def example_window_def)
  have t2: "(1600 :: int) \<le> 1610" "(1100 :: int) \<le> 1110" by simp_all
  have st: "stat example_breaker = example_window" by (simp add: example_breaker_def)
  note T = doReq_admitted [OF example_breaker_inv t1(1) t2(1) example_breaker_accept, THEN conjunct1]
  note U = doReq_admitted [OF example_breaker_inv t1(2) t2(2) example_breaker_accept_early, THEN conjunct1]
  have a: "doReq (\<lambda>p r. (True, r)) example_breaker
       (\<lambda>log. (Returns (Some (Err ''timeout'')), log @ [''req'']))
       (Some (\<lambda>e log. (Returns None, log @ [''fallback''])))
       (\<lambda>e log. (Returns (defaultAcceptable e), log @ [''acceptable''])) [] 1600 1600 1610 =
     Inr (Returns (Some (Err ''timeout'')),
          example_breaker\<lparr>stat := after_sample example_window 1600 1610 0\<rparr>, [''req'', ''acceptable''])"
    unfolding T st by (simp add: defaultAcceptable_def)
  have b: "doReq (\<lambda>p r. (True, r)) example_breaker
       (\<lambda>log. (Returns (Some (Err ''not found'')), log @ [''req'']))
       (Some (\<lambda>e log. (Returns None, log @ [''fallback''])))
       (\<lambda>e log. (Returns True, log @ [''acceptable''])) [] 1600 1600 1610 =
     Inr (Returns (Some (Err ''not found'')),
          example_breaker\<lparr>stat := after_sample example_window 1600 1610 1\<rparr>, [''req'', ''acceptable''])"
    unfolding T st by simp
  have c: "doReq (\<lambda>p r. (True, r)) example_breaker
       (\<lambda>log. (Panics ''boom'', log @ [''req'']))
       (Some (\<lambda>e log. (Returns None, log @ [''fallback''])))
       (\<lambda>e log. (Returns (defaultAcceptable e), log @ [''acceptable''])) [] 1600 1600 1610 =
     Inr (Panics ''boom'',
          example_breaker\<lparr>stat := after_sample example_window 1600 1610 0\<rparr>, [''req''])"
    unfolding T st by simp
  have d: "doReq (\<lambda>p r. (True, r)) example_breaker
       (\<lambda>log. (Returns None, log @ [''req'']))
       None
       (\<lambda>e log. (Returns (defaultAcceptable e), log @ [''acceptable''])) [] 1100 1100 1110 =
     Inr (Returns None,
          example_breaker\<lparr>stat := after_sample example_window 1100 1110 1\<rparr>, [''req'', ''acceptable''])"
    unfolding U st by (simp add: defaultAcceptable_def)
  show ?thesis
    using a b c d example_breaker_inv t1(1) example_breaker_accept example_breaker_accept_early
    unfolding example_window_samples by simp
qed

lemma loggedThrottle_allow_rejected:
  assumes "it_allow (internalThrottle lt) = Inr ((None, Some ErrServiceUnavailable), t')"
    and ew: "ew_inv (errWin lt)"
  shows "loggedThrottle_allow it_allow lt pname pid =
           Inr ((\<lparr>promise = None\<rparr>, Some ErrServiceUnavailable), lt\<lparr>internalThrottle := t'\<rparr>,
                [''proc('' @ pname @ ''/'' @ pid @ ''), callee: '' @ lt_name lt @
                 '', breaker is open and requests dropped'' @ [CHR 0x0A] @
                 ''last errors:'' @ [CHR 0x0A] @ Join (stored (errWin lt)) [CHR 0x0A]])"
  using assms(1) errorWindow_String_stored[OF ew]
  by (simp add: loggedThrottle_allow_def logError_def)

lemma nil_promise_Accept:
  "PromiseWithReason_Accept p_Accept \<lparr>promise = None\<rparr> lt = (Some NilDereference, lt)"
  by (simp add: PromiseWithReason_Accept_def)

lemma nil_promise_Reject:
  assumes "ew_inv (errWin lt)"
  shows "\<exists>ew'. errorWindow_add (errWin lt) ts reason = Inr ew' \<and>
           stored ew' = take 5 (entry (ts, reason) # stored (errWin lt)) \<and>
           PromiseWithReason_Reject p_Reject \<lparr>promise = None\<rparr> lt ts reason =
             (Some NilDereference, lt\<lparr>errWin := ew'\<rparr>)"
proof -
  from errorWindow_add_step[OF assms, of ts reason]
  obtain ew' where "errorWindow_add (errWin lt) ts reason = Inr ew'"
    "stored ew' = take 5 (entry (ts, reason) # stored (errWin lt))" by blast
  then show ?thesis by (simp add: PromiseWithReason_Reject_def)
qed

lemma allow_rejected:
  assumes inv: "breaker_inv b" and t1: "lastTime (stat b) \<le> t_span" and t2: "t_span \<le> now"
    and rej: "accept TrueOnProba b t_acc = Inr (Some e, b1)"
  shows "allow TrueOnProba b t_acc t_span now =
           Inr ((None, Some ErrServiceUnavailable), b1\<lparr>stat := after_sample (stat b1) t_span now 0\<rparr>)"
proof -
  from accept_result[OF rej] have s: "stat b1 = stat b" "gb_k b1 = gb_k b"
    and e: "e = ErrServiceUnavailable" by simp_all
  have inv1: "breaker_inv b1" using breaker_inv_stat[OF s inv] .
  have t1': "lastTime (stat b1) \<le> t_span" using t1 s by simp
  show ?thesis
    using rej e by (simp add: allow_def markFailure_sample[OF inv1 t1' t2])
qed

text \<open>
  C6, as amended. Take a breaker that satisfies its invariant, with a monotonic clock,
  and a call that \<open>accept\<close> rejects. The error is \<open>ErrServiceUnavailable\<close>, and before the
  call returns exactly one failure sample is recorded: in the bucket at the current
  offset the count is one more and the sum the same, or the bucket is \<open>(0, 1)\<close> when
  the window has moved on. \<open>doReq\<close> invokes neither \<open>req\<close> nor \<open>acceptable\<close>; with a
  fallback it invokes it once on \<open>ErrServiceUnavailable\<close> and returns what it returns,
  with none it returns \<open>ErrServiceUnavailable\<close>. The \<open>allow\<close> of the \<open>googleBreaker\<close>
  returns \<open>ErrServiceUnavailable\<close> and the nil promise. The \<open>allow\<close> of a logged throttle,
  around any internal throttle whose \<open>allow\<close> rejects in this way, returns
  \<open>ErrServiceUnavailable\<close>, sends one report, and returns a \<open>PromiseWithReason\<close> that
  is not nil and holds the nil promise: \<open>Accept\<close> through it panics and changes nothing;
  \<open>Reject\<close> through it stores its reason in the error window and then panics, with
  the internal throttle, and so the window of samples, unchanged.
\<close>

theorem rejected_records_failure:
  fixes p_Accept p_Reject :: "'p \<Rightarrow> 't \<Rightarrow> panic option \<times> 't"
  assumes inv: "breaker_inv b" and t1: "lastTime (stat b) \<le> t_span" and t2: "t_span \<le> now"
    and rej: "accept TrueOnProba b t_acc = Inr (Some e, b1)"
  shows "e = ErrServiceUnavailable \<and> stat b1 = stat b \<and>
    doReq TrueOnProba b req (Some f) acceptable env t_acc t_span now =
      (case f (Some ErrServiceUnavailable) env of
         (res, env1) \<Rightarrow> Inr (res, b1\<lparr>stat := after_sample (stat b1) t_span now 0\<rparr>, env1)) \<and>
    doReq TrueOnProba b req None acceptable env t_acc t_span now =
      Inr (Returns (Some ErrServiceUnavailable),
           b1\<lparr>stat := after_sample (stat b1) t_span now 0\<rparr>, env) \<and>
    allow TrueOnProba b t_acc t_span now =
      Inr ((None, Some ErrServiceUnavailable), b1\<lparr>stat := after_sample (stat b1) t_span now 0\<rparr>) \<and>
    nat (offset (after_sample (stat b1) t_span now 0))
      < length (buckets (win (after_sample (stat b1) t_span now 0))) \<and>
    buckets (win (after_sample (stat b1) t_span now 0)) !
        nat (offset (after_sample (stat b1) t_span now 0)) =
      (if spec_span (stat b1) t_span = 0
       then \<lparr>Sum = Sum (buckets (win (stat b1)) ! nat (offset (stat b1))) + 0,
             Count = Count (buckets (win (stat b1)) ! nat (offset (stat b1))) + 1\<rparr>
       else \<lparr>Sum = 0, Count = 1\<rparr>) \<and>
    (\<forall>(lt :: 't loggedThrottle) (it_allow :: 't \<Rightarrow> panic + (('p option \<times> error option) \<times> 't)) t'.
       it_allow (internalThrottle lt) = Inr ((None, Some ErrServiceUnavailable), t') \<and>
       ew_inv (errWin lt) \<longrightarrow>
         loggedThrottle_allow it_allow lt pname pid =
           Inr ((\<lparr>promise = None\<rparr>, Some ErrServiceUnavailable), lt\<lparr>internalThrottle := t'\<rparr>,
                [''proc('' @ pname @ ''/'' @ pid @ ''), callee: '' @ lt_name lt @
                 '', breaker is open and requests dropped'' @ [CHR 0x0A] @
                 ''last errors:'' @ [CHR 0x0A] @ Join (stored (errWin lt)) [CHR 0x0A]]) \<and>
         PromiseWithReason_Accept p_Accept \<lparr>promise = None\<rparr> (lt\<lparr>internalThrottle := t'\<rparr>) =
           (Some NilDereference, lt\<lparr>internalThrottle := t'\<rparr>) \<and>
         (\<exists>ew'. errorWindow_add (errWin lt) ts reason = Inr ew' \<and>
            stored ew' = take 5 (entry (ts, reason) # stored (errWin lt)) \<and>
            PromiseWithReason_Reject p_Reject \<lparr>promise = None\<rparr> (lt\<lparr>internalThrottle := t'\<rparr>)
                ts reason =
              (Some NilDereference, lt\<lparr>internalThrottle := t', errWin := ew'\<rparr>)))"
proof -
  from accept_result[OF rej] have s: "stat b1 = stat b" "gb_k b1 = gb_k b"
    and e: "e = ErrServiceUnavailable" by simp_all
  have inv1: "breaker_inv b1" using breaker_inv_stat[OF s inv] .
  have t1': "lastTime (stat b1) \<le> t_span" using t1 s by simp
  have wf1: "wf_window (stat b1)" using inv1 by (simp add: breaker_inv_def)
  note mf = markFailure_sample[OF inv1 t1' t2]
  have rej': "accept TrueOnProba b t_acc = Inr (Some ErrServiceUnavailable, b1)"
    using rej e by simp
  have d1: "doReq TrueOnProba b req (Some f) acceptable env t_acc t_span now =
      (case f (Some ErrServiceUnavailable) env of
         (res, env1) \<Rightarrow> Inr (res, b1\<lparr>stat := after_sample (stat b1) t_span now 0\<rparr>, env1))"
    by (simp add: doReq_def rej' mf)
  have d2: "doReq TrueOnProba b req None acceptable env t_acc t_span now =
      Inr (Returns (Some ErrServiceUnavailable),
           b1\<lparr>stat := after_sample (stat b1) t_span now 0\<rparr>, env)"
    by (simp add: doReq_def rej' mf)
  note a = allow_rejected[OF inv t1 t2 rej]
  note c = after_sample_current[OF wf1, of t_span now 0]
  have l: "loggedThrottle_allow it_allow lt pname pid =
           Inr ((\<lparr>promise = None\<rparr>, Some ErrServiceUnavailable), lt\<lparr>internalThrottle := t'\<rparr>,
                [''proc('' @ pname @ ''/'' @ pid @ ''), callee: '' @ lt_name lt @
                 '', breaker is open and requests dropped'' @ [CHR 0x0A] @
                 ''last errors:'' @ [CHR 0x0A] @ Join (stored (errWin lt)) [CHR 0x0A]]) \<and>
         PromiseWithReason_Accept p_Accept \<lparr>promise = None\<rparr> (lt\<lparr>internalThrottle := t'\<rparr>) =
           (Some NilDereference, lt\<lparr>internalThrottle := t'\<rparr>) \<and>
         (\<exists>ew'. errorWindow_add (errWin lt) ts reason = Inr ew' \<and>
            stored ew' = take 5 (entry (ts, reason) # stored (errWin lt)) \<and>
            PromiseWithReason_Reject p_Reject \<lparr>promise = None\<rparr> (lt\<lparr>internalThrottle := t'\<rparr>)
                ts reason =
              (Some NilDereference, lt\<lparr>internalThrottle := t', errWin := ew'\<rparr>))"
    if h: "it_allow (internalThrottle lt) = Inr ((None, Some ErrServiceUnavailable), t') \<and>
       ew_inv (errWin lt)"
    for lt :: "'t loggedThrottle" and it_allow :: "'t \<Rightarrow> panic + (('p option \<times> error option) \<times> 't)" and t'
  proof -
    have ew: "ew_inv (errWin (lt\<lparr>internalThrottle := t'\<rparr>))" using h by simp
    from nil_promise_Reject[OF ew, of ts reason p_Reject]
    show ?thesis
      using loggedThrottle_allow_rejected[where it_allow = it_allow and lt = lt and t' = t'
          and pname = pname and pid = pid] h
        nil_promise_Accept[of p_Accept "lt\<lparr>internalThrottle := t'\<rparr>"]
      by simp
  qed
  show ?thesis
    using e s(1) d1 d2 a c l by (intro conjI allI impI) blast+
qed

theorem rejected_records_failure_witness:
  "breaker_inv example_tripped \<and> lastTime (stat example_tripped) \<le> 1600 \<and> (1600 :: int) \<le> 1610 \<and>
   accept (\<lambda>p r. (True, r)) example_tripped 1600 = Inr (Some ErrServiceUnavailable, example_tripped) \<and>
   doReq (\<lambda>p r. (True, r)) example_tripped
       (\<lambda>log. (Returns None, log @ [''req'']))
       (Some (\<lambda>e log. (Returns (Some (Err ''fallback'')), log @ [''fallback''])))
       (\<lambda>e log. (Returns (defaultAcceptable e), log @ [''acceptable''])) [] 1600 1600 1610 =
     Inr (Returns (Some (Err ''fallback'')), example_tripped_after, [''fallback'']) \<and>
   doReq (\<lambda>p r. (True, r)) example_tripped
       (\<lambda>log. (Returns None, log @ [''req'']))
       None
       (\<lambda>e log. (Returns (defaultAcceptable e), log @ [''acceptable''])) [] 1600 1600 1610 =
     Inr (Returns (Some ErrServiceUnavailable), example_tripped_after, []) \<and>
   allow (\<lambda>p r. (True, r)) example_tripped 1600 1600 1610 =
     Inr ((None, Some ErrServiceUnavailable), example_tripped_after) \<and>
   offset (stat example_tripped_after) = 3 \<and>
   buckets (win (stat example_tripped_after)) ! 3 = \<lparr>Sum = 0, Count = 1\<rparr> \<and>
   loggedThrottle_allow (\<lambda>t. allow (\<lambda>p r. (True, r)) t 1600 1600 1610)
      (newLoggedThrottle ''svc'' example_tripped) ''proc'' ''1'' =
     Inr ((\<lparr>promise = None\<rparr>, Some ErrServiceUnavailable), example_rejected,
          [''proc(proc/1), callee: svc, breaker is open and requests dropped'' @ [CHR 0x0A] @
           ''last errors:'' @ [CHR 0x0A]]) \<and>
   PromiseWithReason_Accept (\<lambda>p b. googlePromise_Accept p b 1700 1700) \<lparr>promise = None\<rparr>
      example_rejected = (Some NilDereference, example_rejected) \<and>
   (\<exists>ew'. stored ew' = [''10:00:01 timeout''] \<and>
      PromiseWithReason_Reject (\<lambda>p b. googlePromise_Reject p b 1700 1700) \<lparr>promise = None\<rparr>
        example_rejected ''10:00:01'' ''timeout'' =
      (Some NilDereference, example_rejected\<lparr>errWin := ew'\<rparr>))"
proof -
  have t1: "lastTime (stat example_tripped) \<le> 1600"
    by (simp add: example_tripped_def example_failures_def)
  have t2: "(1600 :: int) \<le> 1610" by simp
  have st: "stat example_tripped = example_failures" by (simp add: example_tripped_def)
  have after: "example_tripped\<lparr>stat := after_sample (stat example_tripped) 1600 1610 0\<rparr> =
      example_tripped_after"
    unfolding st example_failures_sample by (simp add: example_tripped_after_def)
  note T = rejected_records_failure [OF example_tripped_inv t1 t2 example_tripped_accept,
      where req = "\<lambda>log. (Returns None, log @ [''req''])"
        and f = "\<lambda>e log. (Returns (Some (Err ''fallback'')), log @ [''fallback''])"
        and acceptable = "\<lambda>e log. (Returns (defaultAcceptable e), log @ [''acceptable''])"
        and env = "[]" and pname = "''proc''" and pid = "''1''"
        and ts = "''10:00:01''" and reason = "''timeout''"
        and p_Accept = "\<lambda>p b. googlePromise_Accept p b 1700 1700"
        and p_Reject = "\<lambda>p b. googlePromise_Reject p b 1700 1700",
      unfolded after]
  note d1 = T [THEN conjunct2, THEN conjunct2, THEN conjunct1]
  note d2 = T [THEN conjunct2, THEN conjunct2, THEN conjunct2, THEN conjunct1]
  note a = T [THEN conjunct2, THEN conjunct2, THEN conjunct2, THEN conjunct2, THEN conjunct1]
  note L = T [THEN conjunct2, THEN conjunct2, THEN conjunct2, THEN conjunct2, THEN conjunct2,
      THEN conjunct2, THEN conjunct2, rule_format,
      where lt = "newLoggedThrottle ''svc'' example_tripped"
        and it_allow = "\<lambda>t. allow (\<lambda>p r. (True, r)) t 1600 1600 1610"
        and t' = example_tripped_after]
  have h: "allow (\<lambda>p r. (True, r)) (internalThrottle (newLoggedThrottle ''svc'' example_tripped))
        1600 1600 1610 = Inr ((None, Some ErrServiceUnavailable), example_tripped_after) \<and>
      ew_inv (errWin (newLoggedThrottle ''svc'' example_tripped))"
    using a by (simp add: newLoggedThrottle_def new_errorWindow_inv(1))
  have r: "(newLoggedThrottle ''svc'' example_tripped)\<lparr>internalThrottle := example_tripped_after\<rparr> =
      example_rejected"
    by (simp add: newLoggedThrottle_def example_rejected_def)
  note L' = L [OF h, unfolded r]
  have la: "loggedThrottle_allow (\<lambda>t. allow (\<lambda>p r. (True, r)) t 1600 1600 1610)
      (newLoggedThrottle ''svc'' example_tripped) ''proc'' ''1'' =
     Inr ((\<lparr>promise = None\<rparr>, Some ErrServiceUnavailable), example_rejected,
          [''proc(proc/1), callee: svc, breaker is open and requests dropped'' @ [CHR 0x0A] @
           ''last errors:'' @ [CHR 0x0A]])"
    using L' [THEN conjunct1] by (simp add: newLoggedThrottle_def new_errorWindow_inv(2))
  note acc = L' [THEN conjunct2, THEN conjunct1]
  from L' [THEN conjunct2, THEN conjunct2]
  obtain ew' where ew': "stored ew' = take 5 (entry (''10:00:01'', ''timeout'') #
        stored (errWin (newLoggedThrottle ''svc'' example_tripped)))"
    "PromiseWithReason_Reject (\<lambda>p b. googlePromise_Reject p b 1700 1700) \<lparr>promise = None\<rparr>
        example_rejected ''10:00:01'' ''timeout'' =
      (Some NilDereference, example_rejected\<lparr>errWin := ew'\<rparr>)"
    by (auto simp: example_rejected_def newLoggedThrottle_def)
  have "stored ew' = [''10:00:01 timeout'']"
    using ew'(1) by (simp add: newLoggedThrottle_def new_errorWindow_inv(2) entry_def)
  with ew'(2) have rj: "\<exists>ew'. stored ew' = [''10:00:01 timeout''] \<and>
      PromiseWithReason_Reject (\<lambda>p b. googlePromise_Reject p b 1700 1700) \<lparr>promise = None\<rparr>
        example_rejected ''10:00:01'' ''timeout'' =
      (Some NilDereference, example_rejected\<lparr>errWin := ew'\<rparr>)" by blast
  have bk: "offset (stat example_tripped_after) = 3"
    "buckets (win (stat example_tripped_after)) ! 3 = \<lparr>Sum = 0, Count = 1\<rparr>"
    by (simp_all add: example_tripped_after_def)
  show ?thesis
    using example_tripped_inv t1 example_tripped_accept d1 d2 a bk la acc rj by simp
qed

text \<open>
  C6, the claim as stated: the caller of \<open>allow\<close> receives no handle through which
  \<open>Reject\<close> can report. A logged throttle around an internal throttle whose \<open>allow\<close>
  is that of the tripped breaker (a wrapper type can forward to it) returns a
  \<open>PromiseWithReason\<close> with the error, and \<open>Reject\<close> through it leaves the reason in
  the error window, where the next report prints it, before it panics.
\<close>

theorem rejected_promise_counterexample:
  "loggedThrottle_allow (\<lambda>t. allow (\<lambda>p r. (True, r)) t 1600 1600 1610)
      (newLoggedThrottle ''svc'' example_tripped) ''proc'' ''1'' =
     Inr ((\<lparr>promise = None\<rparr>, Some ErrServiceUnavailable), example_rejected,
          [''proc(proc/1), callee: svc, breaker is open and requests dropped'' @ [CHR 0x0A] @
           ''last errors:'' @ [CHR 0x0A]]) \<and>
   errorWindow_String (errWin example_rejected) = Inr [] \<and>
   PromiseWithReason_Reject (\<lambda>p b. googlePromise_Reject p b 1700 1700) \<lparr>promise = None\<rparr>
      example_rejected ''10:00:01'' ''timeout'' =
     (Some NilDereference,
      example_rejected\<lparr>errWin :=
        \<lparr>reasons = [''10:00:01 timeout'', [], [], [], []], index = 1, count = 1\<rparr>\<rparr>) \<and>
   errorWindow_String \<lparr>reasons = [''10:00:01 timeout'', [], [], [], []], index = 1, count = 1\<rparr> =
     Inr ''10:00:01 timeout''"
proof -
  have t1: "lastTime (stat example_tripped) \<le> 1600"
    by (simp add: example_tripped_def example_failures_def)
  have a: "allow (\<lambda>p r. (True, r)) example_tripped 1600 1600 1610 =
      Inr ((None, Some ErrServiceUnavailable),
           example_tripped\<lparr>stat := after_sample (stat example_tripped) 1600 1610 0\<rparr>)"
    by (rule allow_rejected[OF example_tripped_inv t1 _ example_tripped_accept]) simp
  have st: "stat example_tripped = example_failures" by (simp add: example_tripped_def)
  have l: "internalThrottle (newLoggedThrottle ''svc'' example_tripped) = example_tripped"
    "ew_inv (errWin (newLoggedThrottle ''svc'' example_tripped))"
    by (simp_all add: newLoggedThrottle_def new_errorWindow_inv(1))
  have r: "(newLoggedThrottle ''svc'' example_tripped)\<lparr>internalThrottle :=
        example_tripped\<lparr>stat := after_sample (stat example_tripped) 1600 1610 0\<rparr>\<rparr> = example_rejected"
    unfolding st example_failures_sample
    by (simp add: newLoggedThrottle_def example_rejected_def example_tripped_after_def)
  have first: "loggedThrottle_allow (\<lambda>t. allow (\<lambda>p r. (True, r)) t 1600 1600 1610)
      (newLoggedThrottle ''svc'' example_tripped) ''proc'' ''1'' =
     Inr ((\<lparr>promise = None\<rparr>, Some ErrServiceUnavailable), example_rejected,
          [''proc(proc/1), callee: svc, breaker is open and requests dropped'' @ [CHR 0x0A] @
           ''last errors:'' @ [CHR 0x0A]])"
    using loggedThrottle_allow_rejected[where it_allow = "\<lambda>t. allow (\<lambda>p r. (True, r)) t 1600 1600 1610"
        and lt = "newLoggedThrottle ''svc'' example_tripped" and pname = "''proc''" and pid = "''1''",
        OF _ l(2)] a l(1) r
    by (simp add: newLoggedThrottle_def new_errorWindow_inv(2))
  have ew: "ew_inv (errWin example_rejected)"
    by (simp add: example_rejected_def new_errorWindow_inv(1))
  have s0: "errorWindow_String (errWin example_rejected) = Inr []"
    using errorWindow_String_stored[OF ew]
    by (simp add: example_rejected_def new_errorWindow_inv(2))
  have add: "errorWindow_add (errWin example_rejected) ''10:00:01'' ''timeout'' =
      Inr \<lparr>reasons = [''10:00:01 timeout'', [], [], [], []], index = 1, count = 1\<rparr>"
    by (simp add: example_rejected_def new_errorWindow_def errorWindow_add_def numHistoryReasons_def
        MinInt_def go_rem_def go_quo_def numeral_eq_Suc)
  have rej: "PromiseWithReason_Reject (\<lambda>p b. googlePromise_Reject p b 1700 1700) \<lparr>promise = None\<rparr>
      example_rejected ''10:00:01'' ''timeout'' =
     (Some NilDereference,
      example_rejected\<lparr>errWin :=
        \<lparr>reasons = [''10:00:01 timeout'', [], [], [], []], index = 1, count = 1\<rparr>\<rparr>)"
    by (simp add: PromiseWithReason_Reject_def add)
  have ew1: "ew_inv \<lparr>reasons = [''10:00:01 timeout'', [], [], [], []], index = 1, count = 1\<rparr>"
    by (simp add: ew_inv_def)
  have s1: "errorWindow_String \<lparr>reasons = [''10:00:01 timeout'', [], [], [], []], index = 1, count = 1\<rparr> =
     Inr ''10:00:01 timeout''"
    using errorWindow_String_stored[OF ew1] by (simp add: stored_def upto.simps)
  show ?thesis using first s0 rej s1 by simp
qed

section \<open>NewBreaker\<close>

lemma NewBreaker_nil:
  "NewBreaker Int63 opts src = Some (Inr (br, src')) \<Longrightarrow> br = None"
  by (auto simp: NewBreaker_def Let_def split: if_splits option.splits sum.splits)

lemma letter_consts: "letterIdxMask = 63" "letterIdxMax = 10" "length letterBytes = 62"
  by (simp_all add: letterIdxMask_def letterIdxMax_def letterIdxBits_def letterBytes_def go_quo_def)

lemma Rand_example: "Rand (\<lambda>s :: nat. (int s, s + 1)) 5 = Some (Inr (''aaaaaaaf'', 6))"
  unfolding Rand_def Randn_def defaultRandLen_def
  apply (simp add: numeral_eq_Suc)
  apply (subst Randn_loop.simps, simp add: letter_consts letterIdxBits_def drop_bit_eq_div)
  apply (subst Randn_loop.simps, simp add: letter_consts letterIdxBits_def drop_bit_eq_div)
  apply (subst Randn_loop.simps, simp add: letter_consts letterIdxBits_def drop_bit_eq_div)
  apply (subst Randn_loop.simps, simp add: letter_consts letterIdxBits_def drop_bit_eq_div)
  apply (subst Randn_loop.simps, simp add: letter_consts letterIdxBits_def drop_bit_eq_div)
  apply (subst Randn_loop.simps, simp add: letter_consts letterIdxBits_def drop_bit_eq_div)
  apply (subst Randn_loop.simps, simp add: letter_consts letterIdxBits_def drop_bit_eq_div)
  apply (subst Randn_loop.simps, simp add: letter_consts letterIdxBits_def drop_bit_eq_div)
  apply (subst Randn_loop.simps, simp add: letter_consts letterIdxBits_def drop_bit_eq_div)
  apply (simp add: letterBytes_def)
  done

text \<open>
  C1. \<open>NewBreaker\<close> returns the nil \<open>Breaker\<close>: with no option, after it has drawn the
  random name \<open>aaaaaaaf\<close> from a source that counts up from 5, and with an option that
  sets the name, without a draw. \<open>Name\<close> through the nil \<open>Breaker\<close> panics. The claim
  asks for a usable \<open>Breaker\<close> whose \<open>Name\<close> returns the name.
\<close>

theorem NewBreaker_returns_nil:
  "NewBreaker (\<lambda>s :: nat. (int s, s + 1)) ([] :: (unit circuitBreaker \<Rightarrow> unit circuitBreaker) list) 5 =
     Some (Inr (None, 6)) \<and>
   NewBreaker (\<lambda>s :: nat. (int s, s + 1)) [\<lambda>b :: unit circuitBreaker. b\<lparr>cb_name := ''orders''\<rparr>] 5 =
     Some (Inr (None, 5)) \<and>
   Name (None :: unit circuitBreaker option) = Inl NilDereference"
  unfolding NewBreaker_def Name_def Rand_example by simp


end
